theory Spec2Isabelle
  imports Main "HOL-Library.Sublist" "HOL-Library.AList"
begin

section \<open>JavaScript strings\<close>

text \<open>
  A JavaScript string is a sequence of UTF-16 code units: \<open>length\<close> counts code units,
  indexing reads one code unit, and the regular expressions of \<open>app.js\<close> (none of them has
  the \<open>u\<close> flag) work on code units. A string is therefore modelled as the list of its
  code unit values, as integers. Every value of a real string lies between \<open>0\<close> and
  \<open>65535\<close>; no definition below depends on those bounds. \<open>js\<close> embeds an ASCII literal.
\<close>

type_synonym jsstring = "int list"

definition js :: "string \<Rightarrow> jsstring" where
  "js s = map of_char s"

text \<open>The character classes \<open>[0-9]\<close>, \<open>[A-Z]\<close>, \<open>[a-z]\<close>, \<open>[a-zA-Z0-9]\<close> and \<open>\w\<close>.\<close>

definition isDigit :: "int \<Rightarrow> bool" where
  "isDigit c \<longleftrightarrow> 48 \<le> c \<and> c \<le> 57"

definition isUpper :: "int \<Rightarrow> bool" where
  "isUpper c \<longleftrightarrow> 65 \<le> c \<and> c \<le> 90"

definition isLower :: "int \<Rightarrow> bool" where
  "isLower c \<longleftrightarrow> 97 \<le> c \<and> c \<le> 122"

definition isAlnum :: "int \<Rightarrow> bool" where
  "isAlnum c \<longleftrightarrow> isLower c \<or> isUpper c \<or> isDigit c"

definition isWordChar :: "int \<Rightarrow> bool" where
  "isWordChar c \<longleftrightarrow> isAlnum c \<or> c = 95"

text \<open>
  The class \<open>\s\<close>, which is also what \<open>String.prototype.trim\<close> strips: the white space
  and line terminator code points of ECMAScript (TAB, LF, VT, FF, CR, SP, NBSP, U+1680,
  U+2000 to U+200A, U+2028, U+2029, U+202F, U+205F, U+3000, U+FEFF).
\<close>

definition isSpace :: "int \<Rightarrow> bool" where
  "isSpace c \<longleftrightarrow>
     c = 9 \<or> c = 10 \<or> c = 11 \<or> c = 12 \<or> c = 13 \<or> c = 32 \<or> c = 160 \<or> c = 5760 \<or>
     (8192 \<le> c \<and> c \<le> 8202) \<or> c = 8232 \<or> c = 8233 \<or> c = 8239 \<or> c = 8287 \<or>
     c = 12288 \<or> c = 65279"

text \<open>\<open>s.trim()\<close>, and \<open>s.match(/^(\s*)/)[1]\<close>, the leading white space of a line.\<close>

definition trimStart :: "jsstring \<Rightarrow> jsstring" where
  "trimStart s = dropWhile isSpace s"

definition trimEnd :: "jsstring \<Rightarrow> jsstring" where
  "trimEnd s = rev (dropWhile isSpace (rev s))"

definition trim :: "jsstring \<Rightarrow> jsstring" where
  "trim s = trimEnd (trimStart s)"

definition leadingSpace :: "jsstring \<Rightarrow> jsstring" where
  "leadingSpace s = takeWhile isSpace s"

text \<open>
  \<open>s.replace(/c+/g, "c")\<close> for one code unit \<open>c\<close>: every run of \<open>c\<close> becomes a single
  \<open>c\<close>. (\<open>s.replace(/  +/g, " ")\<close> is the same function at the space: a run of one is
  left as it is either way.)
\<close>

fun collapseRuns :: "int \<Rightarrow> jsstring \<Rightarrow> jsstring" where
  "collapseRuns c [] = []"
| "collapseRuns c [x] = [x]"
| "collapseRuns c (x # y # r) =
     (if x = c \<and> y = c then collapseRuns c (y # r) else x # collapseRuns c (y # r))"

text \<open>
  \<open>s.replace(/^c|c$/g, "")\<close> for one code unit \<open>c\<close>: the global search removes a \<open>c\<close>
  at index 0, goes on after it, and removes a \<open>c\<close> that stands last in what is left.
\<close>

definition stripEdges :: "int \<Rightarrow> jsstring \<Rightarrow> jsstring" where
  "stripEdges c s =
     (let r = (case s of [] \<Rightarrow> [] | x # xs \<Rightarrow> if x = c then xs else s)
      in if r \<noteq> [] \<and> last r = c then butlast r else r)"

text \<open>
  A loop over a list whose body may throw: the body \<open>f\<close> takes an element and the state
  and returns the new state, or \<open>None\<close> for an exception, which ends the loop.
\<close>

fun foldOption :: "('a \<Rightarrow> 's \<Rightarrow> 's option) \<Rightarrow> 'a list \<Rightarrow> 's \<Rightarrow> 's option" where
  "foldOption f [] s = Some s"
| "foldOption f (x # xs) s = Option.bind (f x s) (foldOption f xs)"

section \<open>The sanitizer\<close>

text \<open>
  \<open>sanitizeName\<close> (app.js, 135 to 145). The seven transliterated letters are single code
  units: U+00E4, U+00C4, U+00F6, U+00D6, U+00FC, U+00DC and U+00DF. The seven calls of
  \<open>replace\<close> are kept in the order of the source; \<open>cleanName\<close> is the value of \<open>s\<close>
  before the final \<open>s || "unnamed"\<close>.
\<close>

definition replaceAe :: "jsstring \<Rightarrow> jsstring" where
  "replaceAe s = concat (map (\<lambda>c. if c = 228 then js ''ae'' else if c = 196 then js ''Ae'' else [c]) s)"

definition replaceOe :: "jsstring \<Rightarrow> jsstring" where
  "replaceOe s = concat (map (\<lambda>c. if c = 246 then js ''oe'' else if c = 214 then js ''Oe'' else [c]) s)"

definition replaceUe :: "jsstring \<Rightarrow> jsstring" where
  "replaceUe s = concat (map (\<lambda>c. if c = 252 then js ''ue'' else if c = 220 then js ''Ue'' else [c]) s)"

definition replaceSz :: "jsstring \<Rightarrow> jsstring" where
  "replaceSz s = concat (map (\<lambda>c. if c = 223 then js ''ss'' else [c]) s)"

definition replaceNonAlnum :: "jsstring \<Rightarrow> jsstring" where
  "replaceNonAlnum s = map (\<lambda>c. if isAlnum c then c else 95) s"

definition cleanName :: "jsstring \<Rightarrow> jsstring" where
  "cleanName name =
     stripEdges 95 (collapseRuns 95 (replaceNonAlnum
       (replaceSz (replaceUe (replaceOe (replaceAe name))))))"

definition sanitizeName :: "jsstring \<Rightarrow> jsstring" where
  "sanitizeName name = (let s = cleanName name in if s = [] then js ''unnamed'' else s)"

section \<open>The allocator\<close>

text \<open>
  \<open>base + n\<close> appends the decimal numeral of the counter \<open>n\<close>. The counter is a double
  in the source; it starts at 2, grows by one, and is exact far beyond any size the set
  \<open>usedIds\<close> can reach, so it is a natural number here.
\<close>

function digitsOf :: "nat \<Rightarrow> jsstring" where
  "digitsOf n = (if n < 10 then [48 + int n] else digitsOf (n div 10) @ [48 + int (n mod 10)])"
  by pat_completeness auto
termination
  by (relation "measure (\<lambda>n. n)") auto

declare digitsOf.simps [simp del]

lemma digitsOf_nonempty: "digitsOf n \<noteq> []"
  by (subst digitsOf.simps) simp

lemma digitsOf_inj: "digitsOf m = digitsOf n \<Longrightarrow> m = n"
proof (induction m arbitrary: n rule: digitsOf.induct)
  case (1 m)
  show ?case
  proof (cases "m < 10")
    case True
    then have m: "digitsOf m = [48 + int m]" by (subst digitsOf.simps) simp
    have "n < 10"
    proof (rule ccontr)
      assume "\<not> n < 10"
      then have "digitsOf n = digitsOf (n div 10) @ [48 + int (n mod 10)]"
        by (subst digitsOf.simps) simp
      with m 1(2) digitsOf_nonempty [of "n div 10"] show False
        by (cases "digitsOf (n div 10)") auto
    qed
    then have "digitsOf n = [48 + int n]" by (subst digitsOf.simps) simp
    with m 1(2) show ?thesis by simp
  next
    case False
    then have m: "digitsOf m = digitsOf (m div 10) @ [48 + int (m mod 10)]"
      by (subst digitsOf.simps) simp
    have n10: "\<not> n < 10"
    proof
      assume "n < 10"
      then have "digitsOf n = [48 + int n]" by (subst digitsOf.simps) simp
      with m 1(2) digitsOf_nonempty [of "m div 10"] show False
        by (cases "digitsOf (m div 10)") auto
    qed
    then have n: "digitsOf n = digitsOf (n div 10) @ [48 + int (n mod 10)]"
      by (subst digitsOf.simps) simp
    from m n 1(2) have a: "digitsOf (m div 10) = digitsOf (n div 10)"
      and b: "m mod 10 = n mod 10"
      by auto
    from 1(1) [OF False a] have "m div 10 = n div 10" .
    with b show ?thesis by (metis div_mult_mod_eq)
  qed
qed

lemma finite_suffixed: "finite {k. n \<le> k \<and> base @ digitsOf k \<in> set used}"
proof -
  have "inj_on (\<lambda>k. base @ digitsOf k) {k. n \<le> k \<and> base @ digitsOf k \<in> set used}"
    by (auto simp: inj_on_def dest: digitsOf_inj)
  moreover have "(\<lambda>k. base @ digitsOf k) ` {k. n \<le> k \<and> base @ digitsOf k \<in> set used} \<subseteq> set used"
    by auto
  ultimately show ?thesis
    by (meson List.finite_set finite_imageD finite_subset)
qed

lemma suffixed_step:
  "card {k. Suc n \<le> k \<and> base @ digitsOf k \<in> set used} +
     (if base @ digitsOf n \<in> set used then 1 else 0)
   = card {k. n \<le> k \<and> base @ digitsOf k \<in> set used}"
proof (cases "base @ digitsOf n \<in> set used")
  case True
  then have "{k. n \<le> k \<and> base @ digitsOf k \<in> set used} =
      insert n {k. Suc n \<le> k \<and> base @ digitsOf k \<in> set used}"
    by (auto simp: le_Suc_eq)
  moreover have "n \<notin> {k. Suc n \<le> k \<and> base @ digitsOf k \<in> set used}" by simp
  ultimately show ?thesis using True finite_suffixed [of "Suc n" base used] by simp
next
  case False
  then have "{k. n \<le> k \<and> base @ digitsOf k \<in> set used} =
      {k. Suc n \<le> k \<and> base @ digitsOf k \<in> set used}"
    by (auto simp: Suc_le_eq le_less)
  then show ?thesis using False by simp
qed

text \<open>
  The pass state (app.js, 3 and 148): the set \<open>usedIds\<close> and the object \<open>nameMapping\<close>.
  An object is the list of its own string-keyed properties in insertion order;
  \<open>objSet\<close> is the assignment \<open>o[k] = v\<close> for a string \<open>v\<close>: it overwrites in place or
  appends, and the key \<open>__proto__\<close> reaches the inherited setter, which ignores a string.
\<close>

type_synonym jsobject = "(jsstring \<times> jsstring) list"

definition objSet :: "jsstring \<Rightarrow> jsstring \<Rightarrow> jsobject \<Rightarrow> jsobject" where
  "objSet k v m = (if k = js ''__proto__'' then m else AList.update k v m)"

record pass =
  usedIds :: "jsstring list"
  nameMapping :: jsobject

definition emptyPass :: pass where
  "emptyPass = \<lparr>usedIds = [], nameMapping = []\<rparr>"

text \<open>
  The loop of \<open>getUniqueId\<close> (app.js, 157 to 161):
  \<open>while (usedIds.has(id) && nameMapping[id] !== displayName) id = base + n++\<close>.
  A value inherited from \<open>Object.prototype\<close> is never a string, so
  \<open>nameMapping[id] !== displayName\<close> fails exactly when the own property \<open>id\<close> holds
  \<open>displayName\<close>.
\<close>

function probeId ::
  "jsstring list \<Rightarrow> jsobject \<Rightarrow> jsstring \<Rightarrow> jsstring \<Rightarrow> jsstring \<Rightarrow> nat \<Rightarrow> jsstring"
where
  "probeId used nm displayName base ident n =
     (if ident \<in> set used \<and> map_of nm ident \<noteq> Some displayName
      then probeId used nm displayName base (base @ digitsOf n) (Suc n)
      else ident)"
  by pat_completeness auto
termination
proof (relation "measure (\<lambda>(used, nm, displayName, base, ident, n).
    card {k. n \<le> k \<and> base @ digitsOf k \<in> set used} + (if ident \<in> set used then 1 else 0))")
  show "wf (measure (\<lambda>(used, nm, displayName, base, ident, n).
    card {k. n \<le> k \<and> base @ digitsOf k \<in> set used} + (if ident \<in> set used then 1 else 0)))"
    by simp
next
  fix used :: "jsstring list" and nm :: jsobject
    and displayName base ident :: jsstring and n :: nat
  assume "ident \<in> set used \<and> map_of nm ident \<noteq> Some displayName"
  then show "((used, nm, displayName, base, base @ digitsOf n, Suc n),
      (used, nm, displayName, base, ident, n))
    \<in> measure (\<lambda>(used, nm, displayName, base, ident, n).
        card {k. n \<le> k \<and> base @ digitsOf k \<in> set used} + (if ident \<in> set used then 1 else 0))"
    using suffixed_step [of n base used] by simp
qed

declare probeId.simps [simp del]

text \<open>
  \<open>"_".repeat(count)\<close> throws a RangeError for a negative count: \<open>None\<close> is the
  exception. \<open>minLength\<close> is \<open>None\<close> when the argument is left out (\<open>undefined\<close>).
\<close>

definition jsRepeat :: "jsstring \<Rightarrow> int \<Rightarrow> jsstring option" where
  "jsRepeat s count = (if count < 0 then None else Some (concat (replicate (nat count) s)))"

definition padBase :: "jsstring \<Rightarrow> nat option \<Rightarrow> jsstring option" where
  "padBase base minLength =
     (case minLength of
        None \<Rightarrow> Some base
      | Some m \<Rightarrow>
          if m \<noteq> 0 \<and> length base < m
          then map_option (\<lambda>p. base @ p) (jsRepeat (js ''_'') (int m - int (length base)))
          else Some base)"

text \<open>\<open>getUniqueId\<close> (app.js, 150 to 165); the result is the identifier and the new state.\<close>

definition getUniqueId :: "jsstring \<Rightarrow> nat option \<Rightarrow> pass \<Rightarrow> (jsstring \<times> pass) option" where
  "getUniqueId displayName minLength st =
     (case padBase (sanitizeName displayName) minLength of
        None \<Rightarrow> None
      | Some base \<Rightarrow>
          let ident = probeId (usedIds st) (nameMapping st) displayName base base 2
          in Some (ident,
                   st\<lparr>usedIds := List.insert ident (usedIds st),
                      nameMapping := objSet ident displayName (nameMapping st)\<rparr>))"

section \<open>The quoted-field splitter\<close>

text \<open>
  \<open>splitCSV\<close> (app.js, 169 to 186). \<open>for (const ch of line)\<close> walks code points, but a
  code point of two code units is neither \<open>"\<close> (34) nor \<open>,\<close> (44) and is appended whole,
  so walking code units gives the same fields.
\<close>

fun splitCSVFrom :: "jsstring \<Rightarrow> jsstring list \<Rightarrow> jsstring \<Rightarrow> bool \<Rightarrow> jsstring list" where
  "splitCSVFrom [] parts current inQuotes = parts @ [trim current]"
| "splitCSVFrom (ch # rest) parts current inQuotes =
     (if ch = 34 then splitCSVFrom rest parts (current @ [ch]) (\<not> inQuotes)
      else if ch = 44 \<and> \<not> inQuotes then splitCSVFrom rest (parts @ [trim current]) [] inQuotes
      else splitCSVFrom rest parts (current @ [ch]) inQuotes)"

definition splitCSV :: "jsstring \<Rightarrow> jsstring list" where
  "splitCSV line = splitCSVFrom line [] [] False"

section \<open>The entity-relationship preprocessor\<close>

text \<open>
  Matching with the \<open>i\<close> flag and no \<open>u\<close> flag compares canonicalised code units; for
  a pattern of ASCII letters that is ASCII case folding, since a code unit from 128 on
  never canonicalises to an ASCII one. \<open>toUpperCase\<close> is applied by the program only to
  strings that matched such a pattern, where it is ASCII upper-casing.
\<close>

definition upperAscii :: "int \<Rightarrow> int" where
  "upperAscii c = (if isLower c then c - 32 else c)"

definition toUpperCase :: "jsstring \<Rightarrow> jsstring" where
  "toUpperCase s = map upperAscii s"

definition ciEqual :: "jsstring \<Rightarrow> jsstring \<Rightarrow> bool" where
  "ciEqual s pat \<longleftrightarrow> map upperAscii s = map upperAscii pat"

text \<open>\<open>/^(PK|FK|UK)$/i.test(s)\<close> and the alternation \<open>(TD|TB|BT|LR|RL)\<close> under the \<open>i\<close> flag.\<close>

definition isKeyTag :: "jsstring \<Rightarrow> bool" where
  "isKeyTag s \<longleftrightarrow> ciEqual s (js ''PK'') \<or> ciEqual s (js ''FK'') \<or> ciEqual s (js ''UK'')"

definition isDirToken :: "jsstring \<Rightarrow> bool" where
  "isDirToken s \<longleftrightarrow>
     ciEqual s (js ''TD'') \<or> ciEqual s (js ''TB'') \<or> ciEqual s (js ''BT'') \<or>
     ciEqual s (js ''LR'') \<or> ciEqual s (js ''RL'')"

text \<open>\<open>parts.join(sep)\<close>, \<open>s.indexOf(needle)\<close>, \<open>s.indexOf(needle, from)\<close> and
  \<open>s.substring(a, b)\<close> (which clamps both indices to the length and swaps them when
  \<open>a > b\<close>). \<open>None\<close> is the result \<open>-1\<close>.\<close>

fun joinWith :: "jsstring \<Rightarrow> jsstring list \<Rightarrow> jsstring" where
  "joinWith sep [] = []"
| "joinWith sep [x] = x"
| "joinWith sep (x # y # r) = x @ sep @ joinWith sep (y # r)"

fun indexOf :: "jsstring \<Rightarrow> jsstring \<Rightarrow> nat option" where
  "indexOf needle [] = (if needle = [] then Some 0 else None)"
| "indexOf needle (x # xs) =
     (if prefix needle (x # xs) then Some 0 else map_option Suc (indexOf needle xs))"

definition indexOfFrom :: "jsstring \<Rightarrow> jsstring \<Rightarrow> nat \<Rightarrow> nat option" where
  "indexOfFrom needle s from =
     (let f = min from (length s) in map_option (\<lambda>i. f + i) (indexOf needle (drop f s)))"

definition substring :: "jsstring \<Rightarrow> nat \<Rightarrow> nat \<Rightarrow> jsstring" where
  "substring s a b =
     (let a' = min a (length s); b' = min b (length s)
      in take (max a' b' - min a' b') (drop (min a' b') s))"

text \<open>
  The attribute line (app.js, 274 to 316). \<open>attributeKey\<close> is the variable \<open>key\<close>,
  \<open>attributeComment\<close> the variable \<open>comment\<close> (\<open>None\<close> is \<open>null\<close>), and
  \<open>commentSuffix\<close> what \<open>if (comment) { ... }\<close> appends to \<open>out\<close>.
\<close>

definition attributeKey :: "jsstring list \<Rightarrow> jsstring option" where
  "attributeKey parts =
     (if 3 \<le> length parts \<and> isKeyTag (parts ! 2) then Some (toUpperCase (parts ! 2)) else None)"

definition attributeComment :: "jsstring list \<Rightarrow> jsstring option" where
  "attributeComment parts =
     (if 4 \<le> length parts then Some (trim (joinWith (js '', '') (drop 3 parts)))
      else if length parts = 3 \<and> attributeKey parts = None then Some (trim (parts ! 2))
      else None)"

definition commentSuffix :: "jsstring option \<Rightarrow> jsstring" where
  "commentSuffix comment =
     (case comment of
        None \<Rightarrow> []
      | Some cm \<Rightarrow>
          if cm = [] then []
          else (let c = trim (stripEdges 34 cm)
                in if c = [] then [] else js '' '' @ [34] @ c @ [34]))"

definition keySuffix :: "jsstring option \<Rightarrow> jsstring" where
  "keySuffix k = (case k of None \<Rightarrow> [] | Some t \<Rightarrow> js '' '' @ t)"

definition preprocessERAttribute :: "jsstring \<Rightarrow> pass \<Rightarrow> (jsstring \<times> pass) option" where
  "preprocessERAttribute line st =
     (let indent = leadingSpace line;
          trimmed = trim line;
          parts = splitCSV trimmed
      in if length parts < 2 then Some (line, st)
         else
           (let displayName = parts ! 0;
                type = parts ! 1;
                k = attributeKey parts;
                comment = attributeComment parts
            in case getUniqueId displayName (Some (length displayName + 2)) st of
                 None \<Rightarrow> None
               | Some (safeName, st') \<Rightarrow>
                   Some (indent @ safeName @ js '' '' @ type @ keySuffix k @ commentSuffix comment,
                         st')))"

text \<open>
  The earlier revision of the same function that \<open>app.js\<close> also holds (1119 to 1148): no
  padding, and the type before the identifier.
\<close>

definition preprocessERAttributeOld :: "jsstring \<Rightarrow> pass \<Rightarrow> (jsstring \<times> pass) option" where
  "preprocessERAttributeOld line st =
     (let indent = leadingSpace line;
          trimmed = trim line;
          parts = splitCSV trimmed
      in if length parts < 2 then Some (line, st)
         else
           (let displayName = parts ! 0;
                type = parts ! 1;
                k = attributeKey parts;
                comment = attributeComment parts
            in case getUniqueId displayName None st of
                 None \<Rightarrow> None
               | Some (safeName, st') \<Rightarrow>
                   Some (indent @ type @ js '' '' @ safeName @ keySuffix k @ commentSuffix comment,
                         st')))"

text \<open>
  The relationship operator \<open>/([|}][o|])(--|\.\.)([o|][|{])/\<close>: six code units.
  \<open>relOpAt s\<close> says that it matches at the start of \<open>s\<close>, \<open>relOpIndex s\<close> is the
  index of the leftmost match (\<open>trimmed.match(relOp).index\<close>).
\<close>

definition relOpAt :: "jsstring \<Rightarrow> bool" where
  "relOpAt s =
     (case s of
        a # b # c # d # e # f # _ \<Rightarrow>
          (a = 124 \<or> a = 125) \<and> (b = 111 \<or> b = 124) \<and>
          ((c = 45 \<and> d = 45) \<or> (c = 46 \<and> d = 46)) \<and>
          (e = 111 \<or> e = 124) \<and> (f = 124 \<or> f = 123)
      | _ \<Rightarrow> False)"

fun relOpIndex :: "jsstring \<Rightarrow> nat option" where
  "relOpIndex [] = None"
| "relOpIndex (x # xs) =
     (if relOpAt (x # xs) then Some 0 else map_option Suc (relOpIndex xs))"

text \<open>\<open>/[^a-zA-Z0-9_ ]/.test(label)\<close>.\<close>

definition hasSpecialChar :: "jsstring \<Rightarrow> bool" where
  "hasSpecialChar label = list_ex (\<lambda>c. \<not> (isWordChar c \<or> c = 32)) label"

text \<open>\<open>preprocessERRelationship\<close> (app.js, 318 to 362).\<close>

definition preprocessERRelationship :: "jsstring \<Rightarrow> pass \<Rightarrow> (jsstring \<times> pass) option" where
  "preprocessERRelationship line st =
     (let indent = leadingSpace line;
          trimmed = trim line
      in case relOpIndex trimmed of
           None \<Rightarrow> Some (line, st)
         | Some opStart \<Rightarrow>
            (let opEnd = opStart + 6;
                 leftRaw = trim (substring trimmed 0 opStart);
                 operator = substring trimmed opStart opEnd;
                 rightPart = trim (drop opEnd trimmed);
                 colonIdx = indexOf (js '':'') rightPart;
                 rightEntity = (case colonIdx of
                                  Some i \<Rightarrow> trim (substring rightPart 0 i)
                                | None \<Rightarrow> rightPart);
                 label = (case colonIdx of
                            Some i \<Rightarrow> trim (drop (i + 1) rightPart)
                          | None \<Rightarrow> []);
                 leftDisplay = trim (stripEdges 34 leftRaw);
                 rightDisplay = trim (stripEdges 34 rightEntity)
             in case getUniqueId leftDisplay None st of
                  None \<Rightarrow> None
                | Some (leftId, st1) \<Rightarrow>
                   (case getUniqueId rightDisplay None st1 of
                      None \<Rightarrow> None
                    | Some (rightId, st2) \<Rightarrow>
                       (let labelOut =
                              (if label \<noteq> [] \<and> \<not> prefix [34] label \<and> hasSpecialChar label
                               then [34] @ label @ [34] else label);
                            out = indent @ leftId @ js '' '' @ operator @ js '' '' @ rightId
                        in Some (if labelOut \<noteq> [] then out @ js '' : '' @ labelOut else out,
                                 st2)))))"

text \<open>
  The three line patterns of \<open>preprocessER\<close>, each applied to a trimmed line.
  \<open>matchErDecl\<close> is \<open>/^erDiagram(\s+(TD|TB|BT|LR|RL))?$/i\<close>: \<open>None\<close> is no match,
  \<open>Some g\<close> a match whose group 2 is \<open>g\<close>. \<open>matchDirection\<close> is
  \<open>/^direction\s+(TD|TB|BT|LR|RL)$/i\<close> with its group 1. \<open>matchEntityOpen\<close> is
  \<open>/^(.+?)\s*\{$/\<close> with its group 1: the line ends with \<open>{\<close> (123), and the lazy group
  is the shortest non-empty prefix followed by white space only; \<open>.\<close> matches no line
  terminator (LF, CR, U+2028, U+2029).
\<close>

definition matchErDecl :: "jsstring \<Rightarrow> jsstring option option" where
  "matchErDecl t =
     (if ciEqual (take 9 t) (js ''erDiagram'')
      then (let r = drop 9 t
            in if r = [] then Some None
               else if takeWhile isSpace r \<noteq> [] \<and> isDirToken (dropWhile isSpace r)
               then Some (Some (dropWhile isSpace r))
               else None)
      else None)"

definition matchDirection :: "jsstring \<Rightarrow> jsstring option" where
  "matchDirection t =
     (if ciEqual (take 9 t) (js ''direction'')
      then (let r = drop 9 t
            in if takeWhile isSpace r \<noteq> [] \<and> isDirToken (dropWhile isSpace r)
               then Some (dropWhile isSpace r)
               else None)
      else None)"

definition isLineTerminator :: "int \<Rightarrow> bool" where
  "isLineTerminator c \<longleftrightarrow> c = 10 \<or> c = 13 \<or> c = 8232 \<or> c = 8233"

definition matchEntityOpen :: "jsstring \<Rightarrow> jsstring option" where
  "matchEntityOpen t =
     (if t \<noteq> [] \<and> last t = 123
      then (let body = butlast t;
                g = (if trimEnd body = [] then take 1 body else trimEnd body)
            in if g \<noteq> [] \<and> \<not> list_ex isLineTerminator g then Some g else None)
      else None)"

text \<open>\<open>code.split("\n")\<close> and \<open>result.join("\n")\<close>.\<close>

fun splitLines :: "jsstring \<Rightarrow> jsstring list" where
  "splitLines [] = [[]]"
| "splitLines (c # cs) =
     (if c = 10 then [] # splitLines cs
      else (case splitLines cs of
              [] \<Rightarrow> [[c]]
            | l # ls \<Rightarrow> (c # l) # ls))"

definition joinLines :: "jsstring list \<Rightarrow> jsstring" where
  "joinLines ls = joinWith [10] ls"

text \<open>
  \<open>preprocessER\<close> (app.js, 198 to 272). \<open>erState\<close> holds the variables of the loop:
  \<open>inEntity\<close>, \<open>erDirection\<close> (\<open>None\<close> is \<open>null\<close>), \<open>result\<close>, and the pass state.
  \<open>erLine\<close> is one iteration, with the tests in the order of the source.
\<close>

record erState =
  inEntity :: bool
  erDirection :: "jsstring option"
  result :: "jsstring list"
  erPass :: pass

definition erLine :: "jsstring \<Rightarrow> erState \<Rightarrow> erState option" where
  "erLine line s =
     (let trimmed = trim line
      in if trimmed = [] \<or> prefix (js ''%%'') trimmed
         then Some (s\<lparr>result := result s @ [line]\<rparr>)
         else case matchErDecl trimmed of
           Some g \<Rightarrow>
             Some (s\<lparr>erDirection := (case g of
                                        Some d \<Rightarrow> Some (toUpperCase d)
                                      | None \<Rightarrow> erDirection s),
                     result := result s @ [js ''erDiagram'']\<rparr>)
         | None \<Rightarrow>
          (case matchDirection trimmed of
             Some d \<Rightarrow> Some (s\<lparr>erDirection := Some (toUpperCase d)\<rparr>)
           | None \<Rightarrow>
              if trimmed = js ''}''
              then Some (s\<lparr>inEntity := False, result := result s @ [line]\<rparr>)
              else if inEntity s
              then (case preprocessERAttribute line (erPass s) of
                      None \<Rightarrow> None
                    | Some (out, st') \<Rightarrow>
                        Some (s\<lparr>result := result s @ [out], erPass := st'\<rparr>))
              else (case matchEntityOpen trimmed of
                      Some g \<Rightarrow>
                        (let display = trim (stripEdges 34 g)
                         in case getUniqueId display None (erPass s) of
                              None \<Rightarrow> None
                            | Some (ident, st') \<Rightarrow>
                                Some (s\<lparr>inEntity := True,
                                        result := result s @ [leadingSpace line @ ident @ js '' {''],
                                        erPass := st'\<rparr>))
                    | None \<Rightarrow>
                       (case relOpIndex trimmed of
                          Some i \<Rightarrow>
                            (case preprocessERRelationship line (erPass s) of
                               None \<Rightarrow> None
                             | Some (out, st') \<Rightarrow>
                                 Some (s\<lparr>result := result s @ [out], erPass := st'\<rparr>))
                        | None \<Rightarrow> Some (s\<lparr>result := result s @ [line]\<rparr>)))))"

definition erLoop :: "jsstring list \<Rightarrow> erState \<Rightarrow> erState option" where
  "erLoop lines s = foldOption erLine lines s"

definition erStart :: erState where
  "erStart = \<lparr>inEntity = False, erDirection = None, result = [], erPass = emptyPass\<rparr>"

text \<open>
  The value returned, \<open>{ code, direction }\<close>, together with the state the pass leaves in
  the globals \<open>usedIds\<close> and \<open>nameMapping\<close>.
\<close>

record erOutput =
  code :: jsstring
  direction :: "jsstring option"
  finalPass :: pass

definition preprocessER :: "jsstring \<Rightarrow> erOutput option" where
  "preprocessER source =
     (case erLoop (splitLines source) erStart of
        None \<Rightarrow> None
      | Some s \<Rightarrow>
          Some \<lparr>code = joinLines (result s), direction = erDirection s, finalPass = erPass s\<rparr>)"

section \<open>The flowchart preprocessor\<close>

datatype shape = Diamond | Rect | Round

datatype token = Arrow jsstring | Raw jsstring | Node jsstring shape

text \<open>
  The arrow pattern \<open>/^(--+>|--+|==+>|==+|-\.+-\>?|-\.+)((?:\|[^|]*\|)?)/\<close>, applied to
  \<open>rest.substring(pos)\<close>. \<open>arrowHead\<close> is the length of group 1: the alternatives are
  tried in order, each run is greedy, and no shorter run can succeed where the longest one
  fails, because the unit after a shorter run is still a unit of the run. \<open>arrowLabel\<close> is
  the length of group 2, taken at the end of group 1: \<open>|\<close> (124), units other than
  \<open>|\<close>, and the next \<open>|\<close>; or nothing. \<open>arrowMatch\<close> is the length of the whole match.
\<close>

definition runLength :: "int \<Rightarrow> jsstring \<Rightarrow> nat" where
  "runLength c s = length (takeWhile (\<lambda>x. x = c) s)"

definition arrowHead :: "jsstring \<Rightarrow> nat option" where
  "arrowHead s =
     (let d = runLength 45 s; e = runLength 61 s
      in if 2 \<le> d then Some (if prefix [62] (drop d s) then d + 1 else d)
         else if 2 \<le> e then Some (if prefix [62] (drop e s) then e + 1 else e)
         else if d = 1
         then (let p = runLength 46 (drop 1 s)
               in if 1 \<le> p
                  then Some (if prefix [45, 62] (drop (1 + p) s) then p + 3
                             else if prefix [45] (drop (1 + p) s) then p + 2
                             else p + 1)
                  else None)
         else None)"

definition arrowLabel :: "jsstring \<Rightarrow> nat" where
  "arrowLabel s =
     (case s of
        [] \<Rightarrow> 0
      | c # t \<Rightarrow> if c = 124 \<and> 124 \<in> set t then length (takeWhile (\<lambda>x. x \<noteq> 124) t) + 2 else 0)"

definition arrowMatch :: "jsstring \<Rightarrow> nat option" where
  "arrowMatch s =
     (case arrowHead s of None \<Rightarrow> None | Some h \<Rightarrow> Some (h + arrowLabel (drop h s)))"

text \<open>
  The pattern of an identifier-based node,
  \<open>/^([a-zA-Z_]\w*)(\["[^"]*"\]|\("[^"]*"\)|\{"[^"]*"\}|\(\["[^"]*"\]\)|\[\["[^"]*"\]\])?/\<close>.
  \<open>quotedSuffix opn cls t\<close> is the length of \<open>opn "..." cls\<close> at the start of \<open>t\<close>,
  \<open>idSuffix\<close> the length of group 2 (0 when it takes no part), \<open>idMatch\<close> the length of
  the whole match.
\<close>

definition quotedSuffix :: "jsstring \<Rightarrow> jsstring \<Rightarrow> jsstring \<Rightarrow> nat option" where
  "quotedSuffix opn cls t =
     (if prefix (opn @ [34]) t
      then (let u = drop (length opn + 1) t;
                q = length (takeWhile (\<lambda>c. c \<noteq> 34) u)
            in if prefix (34 # cls) (drop q u)
               then Some (length opn + 1 + q + 1 + length cls)
               else None)
      else None)"

definition idSuffix :: "jsstring \<Rightarrow> nat" where
  "idSuffix t =
     (case quotedSuffix (js ''['') (js '']'') t of Some k \<Rightarrow> k | None \<Rightarrow>
      case quotedSuffix (js ''('') (js '')'') t of Some k \<Rightarrow> k | None \<Rightarrow>
      case quotedSuffix (js ''{'') (js ''}'') t of Some k \<Rightarrow> k | None \<Rightarrow>
      case quotedSuffix (js ''(['') (js ''])'') t of Some k \<Rightarrow> k | None \<Rightarrow>
      case quotedSuffix (js ''[['') (js '']]'') t of Some k \<Rightarrow> k | None \<Rightarrow> 0)"

definition idMatch :: "jsstring \<Rightarrow> nat option" where
  "idMatch s =
     (case s of
        [] \<Rightarrow> None
      | c # cs \<Rightarrow>
          if isLower c \<or> isUpper c \<or> c = 95
          then (let w = 1 + length (takeWhile isWordChar cs) in Some (w + idSuffix (drop w s)))
          else None)"

text \<open>
  One iteration of the scanning loop of \<open>preprocessFlowLine\<close> (app.js, 424 to 484), at a
  position \<open>pos < rest.length\<close>: the new position and the token pushed, if any.
  \<open>charAt\<close> is \<open>rest[i]\<close>, with \<open>None\<close> for \<open>undefined\<close>.
\<close>

definition charAt :: "jsstring \<Rightarrow> nat \<Rightarrow> int option" where
  "charAt s i = (if i < length s then Some (s ! i) else None)"

definition tryArrow :: "jsstring \<Rightarrow> nat \<Rightarrow> (nat \<times> token) option" where
  "tryArrow rest pos =
     (case arrowMatch (drop pos rest) of
        Some k \<Rightarrow> if 0 < k then Some (pos + k, Arrow (take k (drop pos rest))) else None
      | None \<Rightarrow> None)"

definition tryDecision :: "jsstring \<Rightarrow> nat \<Rightarrow> (nat \<times> token) option" where
  "tryDecision rest pos =
     (if charAt rest pos = Some 123
      then (case indexOfFrom (js ''}'') rest (pos + 1) of
              Some e \<Rightarrow>
                Some (e + 1, Node (stripEdges 34 (trim (substring rest (pos + 1) e))) Diamond)
            | None \<Rightarrow> None)
      else None)"

definition tryQuoted :: "jsstring \<Rightarrow> nat \<Rightarrow> (nat \<times> token) option" where
  "tryQuoted rest pos =
     (if charAt rest pos = Some 34
      then (case indexOfFrom [34] rest (pos + 1) of
              Some e \<Rightarrow> Some (e + 1, Node (substring rest (pos + 1) e) Rect)
            | None \<Rightarrow> None)
      else None)"

definition tryRound :: "jsstring \<Rightarrow> nat \<Rightarrow> (nat \<times> token) option" where
  "tryRound rest pos =
     (if charAt rest pos = Some 40 \<and> charAt rest (pos + 1) = Some 34
      then (case indexOfFrom [34, 41] rest (pos + 2) of
              Some e \<Rightarrow> Some (e + 2, Node (substring rest (pos + 2) e) Round)
            | None \<Rightarrow> None)
      else None)"

definition tryId :: "jsstring \<Rightarrow> nat \<Rightarrow> (nat \<times> token) option" where
  "tryId rest pos =
     (case idMatch (drop pos rest) of
        Some k \<Rightarrow> if 0 < k then Some (pos + k, Raw (take k (drop pos rest))) else None
      | None \<Rightarrow> None)"

definition flowStep :: "jsstring \<Rightarrow> nat \<Rightarrow> nat \<times> token option" where
  "flowStep rest pos =
     (if (case charAt rest pos of Some c \<Rightarrow> isSpace c | None \<Rightarrow> False) then (pos + 1, None)
      else case tryArrow rest pos of Some (p, t) \<Rightarrow> (p, Some t) | None \<Rightarrow>
           case tryDecision rest pos of Some (p, t) \<Rightarrow> (p, Some t) | None \<Rightarrow>
           case tryQuoted rest pos of Some (p, t) \<Rightarrow> (p, Some t) | None \<Rightarrow>
           case tryRound rest pos of Some (p, t) \<Rightarrow> (p, Some t) | None \<Rightarrow>
           case tryId rest pos of Some (p, t) \<Rightarrow> (p, Some t) | None \<Rightarrow>
           (pos + 1, None))"

text \<open>
  The loop \<open>while (pos < rest.length) { ... }\<close>. Whether it ends is a property to be
  proved, so it is a partial function: \<open>None\<close> is a loop that runs forever.
\<close>

partial_function (option) flowLoop :: "jsstring \<Rightarrow> nat \<Rightarrow> token list \<Rightarrow> token list option" where
  [code]: "flowLoop rest pos tokens =
     (if pos < length rest
      then (case flowStep rest pos of
              (pos', tok) \<Rightarrow>
                flowLoop rest pos' (tokens @ (case tok of None \<Rightarrow> [] | Some t \<Rightarrow> [t])))
      else Some tokens)"

text \<open>
  The state of a flowchart pass: the two globals and the local object \<open>nodeIdMap\<close>
  (app.js, 373 to 376).
\<close>

record flowPass = pass +
  nodeIdMap :: jsobject

definition emptyFlowPass :: flowPass where
  "emptyFlowPass = \<lparr>usedIds = [], nameMapping = [], nodeIdMap = []\<rparr>"

text \<open>The loop of \<open>getFlowNodeId\<close>: \<open>while (usedIds.has(id)) id = base + n++\<close>.\<close>

function probeFlowId :: "jsstring list \<Rightarrow> jsstring \<Rightarrow> jsstring \<Rightarrow> nat \<Rightarrow> jsstring" where
  "probeFlowId used base ident n =
     (if ident \<in> set used then probeFlowId used base (base @ digitsOf n) (Suc n) else ident)"
  by pat_completeness auto
termination
proof (relation "measure (\<lambda>(used, base, ident, n).
    card {k. n \<le> k \<and> base @ digitsOf k \<in> set used} + (if ident \<in> set used then 1 else 0))")
  show "wf (measure (\<lambda>(used, base, ident, n).
    card {k. n \<le> k \<and> base @ digitsOf k \<in> set used} + (if ident \<in> set used then 1 else 0)))"
    by simp
next
  fix used :: "jsstring list" and base ident :: jsstring and n :: nat
  assume "ident \<in> set used"
  then show "((used, base, base @ digitsOf n, Suc n), (used, base, ident, n))
    \<in> measure (\<lambda>(used, base, ident, n).
        card {k. n \<le> k \<and> base @ digitsOf k \<in> set used} + (if ident \<in> set used then 1 else 0))"
    using suffixed_step [of n base used] by simp
qed

declare probeFlowId.simps [simp del]

text \<open>
  \<open>nodeIdMap\<close> is created as \<open>{}\<close>, so \<open>nodeIdMap[label]\<close> also finds what the object
  inherits from \<open>Object.prototype\<close>: a function or an object, which is truthy, under each
  of the names below. The value that \<open>getFlowNodeId\<close> returns is therefore an identifier
  (a string) or such an inherited value.
\<close>

definition objectPrototypeKeys :: "jsstring list" where
  "objectPrototypeKeys =
     [js ''constructor'', js ''hasOwnProperty'', js ''isPrototypeOf'',
      js ''propertyIsEnumerable'', js ''toLocaleString'', js ''toString'', js ''valueOf'',
      js ''__proto__'', js ''__defineGetter__'', js ''__defineSetter__'',
      js ''__lookupGetter__'', js ''__lookupSetter__'']"

datatype idValue = Ident jsstring | Inherited jsstring

text \<open>\<open>getFlowNodeId\<close> (app.js, 378 to 388). An own property that holds the empty
  string would be falsy; none ever does.\<close>

definition allocateFlowNodeId :: "jsstring \<Rightarrow> flowPass \<Rightarrow> idValue \<times> flowPass" where
  "allocateFlowNodeId label st =
     (let base = sanitizeName label;
          ident = probeFlowId (usedIds st) base base 2
      in (Ident ident,
          st\<lparr>usedIds := List.insert ident (usedIds st),
             nodeIdMap := objSet label ident (nodeIdMap st),
             nameMapping := objSet ident label (nameMapping st)\<rparr>))"

definition getFlowNodeId :: "jsstring \<Rightarrow> flowPass \<Rightarrow> idValue \<times> flowPass" where
  "getFlowNodeId label st =
     (case map_of (nodeIdMap st) label of
        Some ident \<Rightarrow> if ident \<noteq> [] then (Ident ident, st) else allocateFlowNodeId label st
      | None \<Rightarrow>
          if label \<in> set objectPrototypeKeys then (Inherited label, st)
          else allocateFlowNodeId label st)"

text \<open>
  Rebuilding the line (app.js, 487 to 497). In the template literal \<open>${id}\<close> an
  identifier stands as it is; an inherited value is converted to a string, whose text
  depends on the engine and is the parameter \<open>inh\<close> (the text for each inherited name).
\<close>

definition idText :: "(jsstring \<Rightarrow> jsstring) \<Rightarrow> idValue \<Rightarrow> jsstring" where
  "idText inh v = (case v of Ident s \<Rightarrow> s | Inherited k \<Rightarrow> inh k)"

definition shapeText :: "shape \<Rightarrow> jsstring \<Rightarrow> jsstring" where
  "shapeText sh label =
     (case sh of
        Diamond \<Rightarrow> [123, 34] @ label @ [34, 125]
      | Round \<Rightarrow> [40, 34] @ label @ [34, 41]
      | Rect \<Rightarrow> [91, 34] @ label @ [34, 93])"

definition renderToken :: "(jsstring \<Rightarrow> jsstring) \<Rightarrow> token \<Rightarrow> flowPass \<Rightarrow> jsstring \<times> flowPass" where
  "renderToken inh tok st =
     (case tok of
        Arrow raw \<Rightarrow> (js '' '' @ raw @ js '' '', st)
      | Raw raw \<Rightarrow> (raw, st)
      | Node label sh \<Rightarrow>
          (case getFlowNodeId label st of
             (v, st') \<Rightarrow> (idText inh v @ shapeText sh label, st')))"

text \<open>\<open>tokens.map(...)\<close> calls the function on the tokens from left to right; the
  calls share the state.\<close>

fun renderStep ::
  "(jsstring \<Rightarrow> jsstring) \<Rightarrow> jsstring list \<times> flowPass \<Rightarrow> token \<Rightarrow> jsstring list \<times> flowPass"
where
  "renderStep inh (parts, st) tok =
     (case renderToken inh tok st of (part, st') \<Rightarrow> (parts @ [part], st'))"

definition renderTokens ::
  "(jsstring \<Rightarrow> jsstring) \<Rightarrow> token list \<Rightarrow> flowPass \<Rightarrow> jsstring list \<times> flowPass"
where
  "renderTokens inh tokens st = foldl (renderStep inh) ([], st) tokens"

text \<open>\<open>preprocessFlowLine\<close> (app.js, 414 to 498).\<close>

definition preprocessFlowLine ::
  "(jsstring \<Rightarrow> jsstring) \<Rightarrow> jsstring \<Rightarrow> flowPass \<Rightarrow> (jsstring \<times> flowPass) option"
where
  "preprocessFlowLine inh line st =
     (let indent = leadingSpace line;
          rest = trim line
      in case flowLoop rest 0 [] of
           None \<Rightarrow> None
         | Some tokens \<Rightarrow>
             (case renderTokens inh tokens st of
                (parts, st') \<Rightarrow> Some (indent @ collapseRuns 32 (concat parts), st')))"

text \<open>
  The lines that \<open>preprocessFlowchart\<close> passes through (app.js, 397 to 403):
  \<open>/^(flowchart|graph)\s/i\<close>, \<open>/^(subgraph|end)\b/i\<close> and
  \<open>/^(classDef|class|style|click|linkStyle)\b/\<close>. After a keyword, which ends in a word
  character, \<open>\b\<close> holds at the end of the string and before a unit that is no word
  character.
\<close>

definition spaceAt :: "jsstring \<Rightarrow> nat \<Rightarrow> bool" where
  "spaceAt t i = (case charAt t i of Some c \<Rightarrow> isSpace c | None \<Rightarrow> False)"

definition boundaryAt :: "jsstring \<Rightarrow> nat \<Rightarrow> bool" where
  "boundaryAt t i = (case charAt t i of Some c \<Rightarrow> \<not> isWordChar c | None \<Rightarrow> True)"

definition keywordCI :: "jsstring \<Rightarrow> jsstring \<Rightarrow> bool" where
  "keywordCI kw t \<longleftrightarrow> ciEqual (take (length kw) t) kw"

definition isFlowPassThrough :: "jsstring \<Rightarrow> bool" where
  "isFlowPassThrough trimmed \<longleftrightarrow>
     trimmed = [] \<or> prefix (js ''%%'') trimmed \<or>
     (keywordCI (js ''flowchart'') trimmed \<and> spaceAt trimmed 9) \<or>
     (keywordCI (js ''graph'') trimmed \<and> spaceAt trimmed 5) \<or>
     (keywordCI (js ''subgraph'') trimmed \<and> boundaryAt trimmed 8) \<or>
     (keywordCI (js ''end'') trimmed \<and> boundaryAt trimmed 3) \<or>
     (prefix (js ''classDef'') trimmed \<and> boundaryAt trimmed 8) \<or>
     (prefix (js ''class'') trimmed \<and> boundaryAt trimmed 5) \<or>
     (prefix (js ''style'') trimmed \<and> boundaryAt trimmed 5) \<or>
     (prefix (js ''click'') trimmed \<and> boundaryAt trimmed 5) \<or>
     (prefix (js ''linkStyle'') trimmed \<and> boundaryAt trimmed 9)"

text \<open>\<open>preprocessFlowchart\<close> (app.js, 372 to 412): the loop over the lines, then the
  text returned, with the state the pass leaves behind.\<close>

fun flowLine ::
  "(jsstring \<Rightarrow> jsstring) \<Rightarrow> jsstring \<Rightarrow> jsstring list \<times> flowPass \<Rightarrow>
   (jsstring list \<times> flowPass) option"
where
  "flowLine inh line (out, st) =
     (if isFlowPassThrough (trim line) then Some (out @ [line], st)
      else map_option (\<lambda>(l, st'). (out @ [l], st')) (preprocessFlowLine inh line st))"

definition preprocessFlowchart ::
  "(jsstring \<Rightarrow> jsstring) \<Rightarrow> jsstring \<Rightarrow> (jsstring \<times> flowPass) option"
where
  "preprocessFlowchart inh source =
     map_option (\<lambda>(out, st). (joinLines out, st))
       (foldOption (flowLine inh) (splitLines source) ([], emptyFlowPass))"

section \<open>The output name-restorer\<close>

text \<open>
  \<open>Object.entries(nameMapping)\<close> lists the own properties: first the keys that are
  array indices (canonical decimal numerals up to \<open>2^32 - 2\<close>) in ascending numeric
  order, then the other keys in insertion order.
\<close>

definition decimalValue :: "jsstring \<Rightarrow> int" where
  "decimalValue s = foldl (\<lambda>a c. 10 * a + (c - 48)) 0 s"

definition isArrayIndex :: "jsstring \<Rightarrow> bool" where
  "isArrayIndex s \<longleftrightarrow>
     s \<noteq> [] \<and> list_all isDigit s \<and> (s = js ''0'' \<or> \<not> prefix (js ''0'') s) \<and>
     length s \<le> 10 \<and> decimalValue s \<le> 4294967294"

definition objectEntries :: "jsobject \<Rightarrow> (jsstring \<times> jsstring) list" where
  "objectEntries m =
     sort_key (\<lambda>e. decimalValue (fst e)) (filter (\<lambda>e. isArrayIndex (fst e)) m) @
     filter (\<lambda>e. \<not> isArrayIndex (fst e)) m"

text \<open>
  \<open>entries.sort((a, b) => b[0].length - a[0].length)\<close>: \<open>Array.prototype.sort\<close> is
  stable, and so is \<open>sort_key\<close>.
\<close>

definition sortedEntries :: "jsobject \<Rightarrow> (jsstring \<times> jsstring) list" where
  "sortedEntries m = sort_key (\<lambda>e. - int (length (fst e))) (objectEntries m)"

text \<open>
  \<open>text.replaceAll(search, replacement)\<close> with two strings. The replacement is a
  template: \<open>GetSubstitution\<close> of ECMAScript expands \<open>$$\<close> to \<open>$\<close>, \<open>$&\<close> to the
  matched text, \<open>$`\<close> to the text before the match and \<open>$'\<close> to the text after it; with
  a string as the search value there are no captures, so \<open>$1\<close> and \<open>$<\<close> stay as they
  are. The matches are found from left to right, each search starting where the last
  match ended (one unit further for an empty search value).
\<close>

fun getSubstitution :: "jsstring \<Rightarrow> jsstring \<Rightarrow> nat \<Rightarrow> jsstring \<Rightarrow> jsstring" where
  "getSubstitution matched str position [] = []"
| "getSubstitution matched str position [c] = [c]"
| "getSubstitution matched str position (c # d # r) =
     (if c = 36 \<and> d = 36 then 36 # getSubstitution matched str position r
      else if c = 36 \<and> d = 38 then matched @ getSubstitution matched str position r
      else if c = 36 \<and> d = 96 then take position str @ getSubstitution matched str position r
      else if c = 36 \<and> d = 39
      then drop (position + length matched) str @ getSubstitution matched str position r
      else c # getSubstitution matched str position (d # r))"

function replaceAllAt :: "jsstring \<Rightarrow> jsstring \<Rightarrow> jsstring \<Rightarrow> nat \<Rightarrow> jsstring" where
  "replaceAllAt search repl s pos =
     (if pos \<le> length s \<and> prefix search (drop pos s)
      then getSubstitution search s pos repl @
           (if search = []
            then (if pos < length s then s ! pos # replaceAllAt search repl s (Suc pos) else [])
            else replaceAllAt search repl s (pos + length search))
      else if pos < length s then s ! pos # replaceAllAt search repl s (Suc pos)
      else [])"
  by pat_completeness auto
termination
  by (relation "measure (\<lambda>(search, repl, s, pos). Suc (length s) - pos)")
    (auto simp: neq_Nil_conv)

declare replaceAllAt.simps [simp del]

definition replaceAll :: "jsstring \<Rightarrow> jsstring \<Rightarrow> jsstring \<Rightarrow> jsstring" where
  "replaceAll search repl s = replaceAllAt search repl s 0"

text \<open>
  The restorer on the text of one leaf element (app.js, 514 to 518): for every entry in
  sorted order, \<open>if (text && text.includes(sanitized)) text = text.replaceAll(sanitized,
  display)\<close>. \<open>postProcessText\<close> is \<open>postProcessSVG\<close> seen from one such element.
\<close>

definition restoreStep :: "jsstring \<Rightarrow> jsstring \<times> jsstring \<Rightarrow> jsstring" where
  "restoreStep text e =
     (if text \<noteq> [] \<and> sublist (fst e) text then replaceAll (fst e) (snd e) text else text)"

definition restoreText :: "(jsstring \<times> jsstring) list \<Rightarrow> jsstring \<Rightarrow> jsstring" where
  "restoreText entries text = foldl restoreStep text entries"

definition postProcessText :: "jsobject \<Rightarrow> jsstring \<Rightarrow> jsstring" where
  "postProcessText m text = restoreText (sortedEntries m) text"

section \<open>Notions used to state the properties\<close>

text \<open>
  A sequence of calls of \<open>getUniqueId\<close> within one pass: each call is a display name with
  its \<open>minLength\<close> argument (\<open>None\<close> when it is left out), and the result is the list of
  the identifiers returned, in order.
\<close>

definition allocStep ::
  "jsstring \<times> nat option \<Rightarrow> jsstring list \<times> pass \<Rightarrow> (jsstring list \<times> pass) option"
where
  "allocStep call r =
     map_option (\<lambda>(ident, st'). (fst r @ [ident], st')) (getUniqueId (fst call) (snd call) (snd r))"

definition allocateAll :: "(jsstring \<times> nat option) list \<Rightarrow> pass \<Rightarrow> jsstring list option" where
  "allocateAll calls st = map_option fst (foldOption allocStep calls ([], st))"

text \<open>
  \<open>issued st ident name\<close>: the identifier is in use and bound to the name.
  \<open>frame st st'\<close>: every identifier in use in \<open>st\<close> is in use in \<open>st'\<close> with the same
  binding.
\<close>

definition issued :: "pass \<Rightarrow> jsstring \<Rightarrow> jsstring \<Rightarrow> bool" where
  "issued st ident name \<longleftrightarrow>
     ident \<in> set (usedIds st) \<and> map_of (nameMapping st) ident = Some name"

definition frame :: "pass \<Rightarrow> pass \<Rightarrow> bool" where
  "frame st st' \<longleftrightarrow>
     set (usedIds st) \<subseteq> set (usedIds st') \<and>
     (\<forall>c \<in> set (usedIds st). map_of (nameMapping st') c = map_of (nameMapping st) c)"

text \<open>
  \<open>cacheTruthy st\<close>: every own value of \<open>nodeIdMap\<close> is a non-empty string, as at the
  start of a pass. \<open>resolves st label v\<close>: a call of \<open>getFlowNodeId\<close> with the label
  returns \<open>v\<close> and leaves the state as it is.
\<close>

definition cacheTruthy :: "flowPass \<Rightarrow> bool" where
  "cacheTruthy st \<longleftrightarrow> (\<forall>k ident. map_of (nodeIdMap st) k = Some ident \<longrightarrow> ident \<noteq> [])"

definition resolves :: "flowPass \<Rightarrow> jsstring \<Rightarrow> idValue \<Rightarrow> bool" where
  "resolves st label v \<longleftrightarrow> getFlowNodeId label st = (v, st)"

text \<open>
  The direction that one source line carries, if it carries one: the shorthand token of a
  declaration line or the token of a standalone \<open>direction\<close> statement, in upper case.
  \<open>directionAfter d lines\<close> is the direction of the last line that carries one, and
  \<open>d\<close> when no line does.
\<close>

definition lineDirection :: "jsstring \<Rightarrow> jsstring option" where
  "lineDirection line =
     (case matchErDecl (trim line) of
        Some g \<Rightarrow> map_option toUpperCase g
      | None \<Rightarrow> map_option toUpperCase (matchDirection (trim line)))"

definition directionAfter :: "jsstring option \<Rightarrow> jsstring list \<Rightarrow> jsstring option" where
  "directionAfter d lines =
     foldl (\<lambda>d line. case lineDirection line of Some x \<Rightarrow> Some x | None \<Rightarrow> d) d lines"

text \<open>
  \<open>goodMapping m\<close>: the keys of the object are pairwise distinct and none is the empty
  string, as in every name mapping that a pass builds.
\<close>

definition goodMapping :: "jsobject \<Rightarrow> bool" where
  "goodMapping m \<longleftrightarrow> distinct (map fst m) \<and> [] \<notin> set (map fst m)"

section \<open>Properties of the sanitizer\<close>

lemma set_collapseRuns: "set (collapseRuns c s) \<subseteq> set s"
  by (induction c s rule: collapseRuns.induct) auto

lemma collapseRuns_Cons: "collapseRuns c (y # r) \<noteq> [] \<and> hd (collapseRuns c (y # r)) = y"
  by (induction c "y # r" arbitrary: y r rule: collapseRuns.induct) auto

lemma sublist_pair_Cons2:
  "sublist [c, c] (x # y # r) \<longleftrightarrow> (x = c \<and> y = c) \<or> sublist [c, c] (y # r)"
  by (auto simp: sublist_code)

lemma collapseRuns_noPair: "\<not> sublist [c, c] (collapseRuns c s)"
proof (induction c s rule: collapseRuns.induct)
  case (1 c)
  then show ?case by simp
next
  case (2 c x)
  then show ?case by (simp add: sublist_code)
next
  case (3 c x y r)
  obtain z zs where z: "collapseRuns c (y # r) = z # zs" "z = y"
    using collapseRuns_Cons [of c y r] by (cases "collapseRuns c (y # r)") auto
  show ?case
  proof (cases "x = c \<and> y = c")
    case True
    with 3 show ?thesis by simp
  next
    case False
    with 3 z show ?thesis by (auto simp: sublist_pair_Cons2)
  qed
qed

lemma noPair_hd: "\<not> sublist [c, c] (c # xs) \<Longrightarrow> xs = [] \<or> hd xs \<noteq> c"
  by (cases xs) auto

lemma noPair_last:
  assumes "\<not> sublist [c, c] r" "r \<noteq> []" "last r = c"
  shows "butlast r = [] \<or> last (butlast r) \<noteq> c"
proof (rule ccontr)
  assume "\<not> ?thesis"
  then have b: "butlast r \<noteq> []" "last (butlast r) = c" by auto
  then have "butlast r = butlast (butlast r) @ [c]"
    by (metis append_butlast_last_id)
  moreover have "r = butlast r @ [c]" using assms by (metis append_butlast_last_id)
  ultimately have "r = butlast (butlast r) @ [c, c] @ []"
    by (metis append.assoc append_Cons append_Nil)
  then have "sublist [c, c] r" unfolding sublist_def by blast
  with assms show False by simp
qed

lemma stripEdges_ends:
  assumes "\<not> sublist [c, c] s" "stripEdges c s \<noteq> []"
  shows "hd (stripEdges c s) \<noteq> c \<and> last (stripEdges c s) \<noteq> c"
proof -
  define r where "r = (case s of [] \<Rightarrow> [] | x # xs \<Rightarrow> if x = c then xs else s)"
  have res: "stripEdges c s = (if r \<noteq> [] \<and> last r = c then butlast r else r)"
    by (simp add: stripEdges_def r_def Let_def)
  have sub: "sublist r s"
    by (auto simp: r_def sublist_Cons_right split: list.splits)
  have np: "\<not> sublist [c, c] r"
    using assms(1) sub sublist_order.order_trans by blast
  have hd_r: "r = [] \<or> hd r \<noteq> c"
    using assms(1) noPair_hd [of c] by (auto simp: r_def split: list.splits)
  show ?thesis
  proof (cases "r \<noteq> [] \<and> last r = c")
    case True
    then have eq: "stripEdges c s = butlast r" using res by simp
    with assms(2) have ne: "butlast r \<noteq> []" by simp
    have "last (butlast r) \<noteq> c" using noPair_last [OF np] True ne by blast
    moreover have "hd (butlast r) = hd r" using ne by (cases r) auto
    ultimately show ?thesis using eq hd_r True by simp
  next
    case False
    then have eq: "stripEdges c s = r" using res by auto
    with assms(2) False hd_r show ?thesis by auto
  qed
qed

lemma cleanName_ends:
  "cleanName name \<noteq> [] \<Longrightarrow> hd (cleanName name) \<noteq> 95 \<and> last (cleanName name) \<noteq> 95"
  unfolding cleanName_def
  by (rule stripEdges_ends [OF collapseRuns_noPair])

lemma js_unnamed: "js ''unnamed'' = [117, 110, 110, 97, 109, 101, 100]"
  by (simp add: js_def)

lemma sanitizeName_hd: "sanitizeName name \<noteq> [] \<and> hd (sanitizeName name) \<noteq> 95"
  using cleanName_ends [of name] by (auto simp: sanitizeName_def Let_def js_unnamed)

lemma set_stripEdges: "set (stripEdges c s) \<subseteq> set s"
  by (auto simp: stripEdges_def Let_def split: list.splits dest: in_set_butlastD)

lemma sublist_stripEdges: "sublist (stripEdges c s) s"
proof -
  have a: "sublist (butlast xs) (x # xs)" for x :: int and xs
    by (meson sublist_Cons_right sublist_butlast)
  have b: "sublist xs (x # xs)" for x :: int and xs
    by (simp add: sublist_Cons_right)
  have c: "xs \<noteq> [] \<Longrightarrow> sublist (x # butlast xs) (x # xs)" for x :: int and xs
    using sublist_butlast [of "x # xs"] by simp
  show ?thesis
    by (auto simp: stripEdges_def Let_def a b c sublist_butlast split: list.splits)
qed

lemma isWordChar_replaceNonAlnum: "c \<in> set (replaceNonAlnum s) \<Longrightarrow> isWordChar c"
  by (auto simp: replaceNonAlnum_def isWordChar_def)

lemma cleanName_word: "c \<in> set (cleanName name) \<Longrightarrow> isWordChar c"
  unfolding cleanName_def
  using set_stripEdges set_collapseRuns isWordChar_replaceNonAlnum by blast

lemma cleanName_noPair: "\<not> sublist [95, 95] (cleanName name)"
  unfolding cleanName_def
  using collapseRuns_noPair sublist_stripEdges sublist_order.order_trans by blast

text \<open>
  C5. For every input string, empty or not, \<open>sanitizeName\<close> returns a non-empty string
  of ASCII letters, digits and underscores (code unit 95) that neither starts nor ends
  with an underscore and holds no two underscores in a row; when the cleaned string is
  empty the result is the token \<open>unnamed\<close>. The function has no error path, and being a
  function of its argument alone it is deterministic.
\<close>

theorem sanitizeName_shape:
  "sanitizeName name \<noteq> [] \<and>
   (\<forall>c \<in> set (sanitizeName name). isWordChar c) \<and>
   hd (sanitizeName name) \<noteq> 95 \<and> last (sanitizeName name) \<noteq> 95 \<and>
   \<not> sublist [95, 95] (sanitizeName name) \<and>
   (cleanName name = [] \<longrightarrow> sanitizeName name = js ''unnamed'')"
proof (cases "cleanName name = []")
  case True
  then have "sanitizeName name = [117, 110, 110, 97, 109, 101, 100]"
    by (simp add: sanitizeName_def js_unnamed)
  then show ?thesis
    using True by (simp add: js_unnamed isWordChar_def isAlnum_def isLower_def sublist_code)
next
  case False
  then have "sanitizeName name = cleanName name"
    by (simp add: sanitizeName_def Let_def)
  then show ?thesis
    using False cleanName_word cleanName_noPair cleanName_ends by auto
qed

text \<open>
  The theorem at the display name \<open>Geb\<close>, U+00E4, \<open>ude  Adresse (neu)\<close> and at a display
  name of symbols only.
\<close>

theorem sanitizeName_shape_witness:
  "sanitizeName (js ''Geb'' @ [228] @ js ''ude  Adresse (neu)'') = js ''Gebaeude_Adresse_neu'' \<and>
   hd (sanitizeName (js ''Geb'' @ [228] @ js ''ude  Adresse (neu)'')) \<noteq> 95 \<and>
   last (sanitizeName (js ''Geb'' @ [228] @ js ''ude  Adresse (neu)'')) \<noteq> 95 \<and>
   \<not> sublist [95, 95] (sanitizeName (js ''Geb'' @ [228] @ js ''ude  Adresse (neu)'')) \<and>
   cleanName (js ''?! (+)'') = [] \<and>
   sanitizeName (js ''?! (+)'') = js ''unnamed''"
proof -
  have e1: "sanitizeName (js ''Geb'' @ [228] @ js ''ude  Adresse (neu)'') = js ''Gebaeude_Adresse_neu''"
    by code_simp
  have e2: "cleanName (js ''?! (+)'') = []"
    by code_simp
  show ?thesis
    using sanitizeName_shape [of "js ''Geb'' @ [228] @ js ''ude  Adresse (neu)''"]
      sanitizeName_shape [of "js ''?! (+)''"] e1 e2
    by blast
qed

section \<open>Properties of the allocator\<close>

lemma padBase_Some: "\<exists>b. padBase base ml = Some b \<and> prefix base b"
  by (auto simp: padBase_def jsRepeat_def split: option.splits)

lemma probeId_result:
  "probeId used nm name base ident n = r \<Longrightarrow> r \<notin> set used \<or> map_of nm r = Some name"
  by (induction used nm name base ident n rule: probeId.induct)
     (subst (asm) (2) probeId.simps, auto split: if_splits)

lemma probeId_prefix:
  "prefix base ident \<Longrightarrow> prefix base (probeId used nm name base ident n)"
  by (induction used nm name base ident n rule: probeId.induct)
     (subst probeId.simps, auto)


lemma getUniqueId_Some: "\<exists>ident st'. getUniqueId name ml st = Some (ident, st')"
  using padBase_Some [of "sanitizeName name" ml]
  by (auto simp: getUniqueId_def Let_def)

lemma getUniqueId_cases:
  assumes "getUniqueId name ml st = Some (ident, st')"
  obtains base where "padBase (sanitizeName name) ml = Some base"
    and "ident = probeId (usedIds st) (nameMapping st) name base base 2"
    and "st' = st\<lparr>usedIds := List.insert ident (usedIds st),
                   nameMapping := objSet ident name (nameMapping st)\<rparr>"
  using assms by (auto simp: getUniqueId_def Let_def split: option.splits)

lemma getUniqueId_not_proto:
  assumes "getUniqueId name ml st = Some (ident, st')"
  shows "ident \<noteq> js ''__proto__''"
proof -
  from assms obtain base where b: "padBase (sanitizeName name) ml = Some base"
    and i: "ident = probeId (usedIds st) (nameMapping st) name base base 2"
    by (rule getUniqueId_cases)
  from b padBase_Some [of "sanitizeName name" ml] have "prefix (sanitizeName name) base" by auto
  moreover have "prefix base ident" unfolding i by (rule probeId_prefix) simp
  ultimately have "prefix (sanitizeName name) ident" by (rule prefix_order.trans)
  then obtain zs where "ident = sanitizeName name @ zs" by (auto simp: prefix_def)
  with sanitizeName_hd [of name] have "hd ident \<noteq> 95" by (cases "sanitizeName name") auto
  then show ?thesis by (auto simp: js_def)
qed

lemma map_of_objSet:
  "k \<noteq> js ''__proto__'' \<Longrightarrow> map_of (objSet k v m) = (map_of m)(k \<mapsto> v)"
  by (simp add: objSet_def update_conv')

lemma getUniqueId_issued:
  assumes "getUniqueId name ml st = Some (ident, st')"
  shows "issued st' ident name"
proof -
  from assms obtain base where
    s: "st' = st\<lparr>usedIds := List.insert ident (usedIds st),
                  nameMapping := objSet ident name (nameMapping st)\<rparr>"
    by (rule getUniqueId_cases)
  from getUniqueId_not_proto [OF assms] show ?thesis
    by (simp add: issued_def s map_of_objSet)
qed

lemma getUniqueId_frame:
  assumes "getUniqueId name ml st = Some (ident, st')"
  shows "frame st st'"
proof -
  from assms obtain base where
    i: "ident = probeId (usedIds st) (nameMapping st) name base base 2" and
    s: "st' = st\<lparr>usedIds := List.insert ident (usedIds st),
                  nameMapping := objSet ident name (nameMapping st)\<rparr>"
    by (rule getUniqueId_cases)
  from i have r: "ident \<notin> set (usedIds st) \<or> map_of (nameMapping st) ident = Some name"
    using probeId_result by metis
  from getUniqueId_not_proto [OF assms] r show ?thesis
    by (auto simp: frame_def s map_of_objSet)
qed

lemma frame_refl: "frame st st"
  by (simp add: frame_def)

lemma frame_trans: "frame a b \<Longrightarrow> frame b c \<Longrightarrow> frame a c"
  by (auto simp: frame_def)

lemma issued_frame: "issued st ident name \<Longrightarrow> frame st st' \<Longrightarrow> issued st' ident name"
  by (auto simp: issued_def frame_def)

lemma probeId_frame:
  assumes "set used \<subseteq> set used'" "\<forall>c \<in> set used. map_of nm' c = map_of nm c"
    and "r = probeId used nm name base ident n"
    and "r \<in> set used'" "map_of nm' r = Some name"
  shows "probeId used' nm' name base ident n = r"
  using assms
proof (induction used nm name base ident n rule: probeId.induct)
  case (1 used nm name base ident n)
  show ?case
  proof (cases "ident \<in> set used \<and> map_of nm ident \<noteq> Some name")
    case True
    then have "ident \<in> set used' \<and> map_of nm' ident \<noteq> Some name"
      using 1(2,3) by auto
    moreover have "r = probeId used nm name base (base @ digitsOf n) (Suc n)"
      using 1(4) True by (subst (asm) probeId.simps) simp
    ultimately show ?thesis
      using 1(1) [OF True 1(2,3) _ 1(5,6)] by (subst probeId.simps) simp
  next
    case False
    then have "r = ident" using 1(4) by (subst (asm) probeId.simps) auto
    with 1(5,6) show ?thesis by (subst probeId.simps) simp
  qed
qed

lemma getUniqueId_stable:
  assumes a: "getUniqueId name ml st = Some (ident, st1)"
    and f: "frame st1 st2"
  shows "\<exists>st3. getUniqueId name ml st2 = Some (ident, st3)"
proof -
  from a obtain base where b: "padBase (sanitizeName name) ml = Some base"
    and i: "ident = probeId (usedIds st) (nameMapping st) name base base 2"
    by (rule getUniqueId_cases)
  have f02: "frame st st2" using getUniqueId_frame [OF a] f by (rule frame_trans)
  have iss: "issued st2 ident name" using getUniqueId_issued [OF a] f by (rule issued_frame)
  have "probeId (usedIds st2) (nameMapping st2) name base base 2 = ident"
    using f02 iss i by (intro probeId_frame [where used = "usedIds st" and nm = "nameMapping st"])
      (auto simp: frame_def issued_def)
  then show ?thesis by (simp add: getUniqueId_def b Let_def)
qed

lemma getUniqueId_distinct:
  assumes "issued st ident0 name0" "getUniqueId name ml st = Some (ident, st')" "name \<noteq> name0"
  shows "ident \<noteq> ident0"
proof
  assume e: "ident = ident0"
  from assms(2) obtain base where
    i: "ident = probeId (usedIds st) (nameMapping st) name base base 2"
    by (rule getUniqueId_cases)
  then have "ident \<notin> set (usedIds st) \<or> map_of (nameMapping st) ident = Some name"
    using probeId_result by metis
  with assms(1,3) e show False by (auto simp: issued_def)
qed

lemma allocStep_acc:
  "map_option fst (foldOption allocStep calls (acc, st)) =
   map_option (\<lambda>ids. acc @ ids) (map_option fst (foldOption allocStep calls ([], st)))"
proof (induction calls arbitrary: acc st)
  case Nil
  then show ?case by simp
next
  case (Cons c calls)
  obtain ident st' where g: "getUniqueId (fst c) (snd c) st = Some (ident, st')"
    using getUniqueId_Some by blast
  have "map_option fst (foldOption allocStep (c # calls) (acc, st)) =
      map_option fst (foldOption allocStep calls (acc @ [ident], st'))"
    by (simp add: allocStep_def g)
  also have "\<dots> = map_option (\<lambda>ids. (acc @ [ident]) @ ids)
      (map_option fst (foldOption allocStep calls ([], st')))"
    by (rule Cons.IH)
  also have "\<dots> = map_option (\<lambda>ids. acc @ ids)
      (map_option (\<lambda>ids. [ident] @ ids) (map_option fst (foldOption allocStep calls ([], st'))))"
    by (simp add: option.map_comp comp_def)
  also have "map_option (\<lambda>ids. [ident] @ ids) (map_option fst (foldOption allocStep calls ([], st')))
      = map_option fst (foldOption allocStep calls ([ident], st'))"
    by (rule Cons.IH [symmetric])
  also have "map_option fst (foldOption allocStep calls ([ident], st')) =
      map_option fst (foldOption allocStep (c # calls) ([], st))"
    by (simp add: allocStep_def g)
  finally show ?case .
qed

lemma allocateAll_Nil: "allocateAll [] st = Some []"
  by (simp add: allocateAll_def)

lemma allocateAll_Cons:
  "allocateAll ((name, ml) # calls) st =
     (case getUniqueId name ml st of
        None \<Rightarrow> None
      | Some (ident, st') \<Rightarrow> map_option (\<lambda>ids. ident # ids) (allocateAll calls st'))"
proof -
  obtain ident st' where g: "getUniqueId name ml st = Some (ident, st')"
    using getUniqueId_Some by blast
  have "allocateAll ((name, ml) # calls) st =
      map_option fst (foldOption allocStep calls ([ident], st'))"
    by (simp add: allocateAll_def allocStep_def g)
  also have "\<dots> = map_option (\<lambda>ids. [ident] @ ids) (allocateAll calls st')"
    unfolding allocateAll_def by (rule allocStep_acc)
  finally show ?thesis by (simp add: g)
qed

lemmas allocateAll_simps = allocateAll_Nil allocateAll_Cons

lemma allocateAll_Some: "\<exists>ids. allocateAll calls st = Some ids"
proof (induction calls arbitrary: st)
  case Nil
  then show ?case by (simp add: allocateAll_simps)
next
  case (Cons c calls)
  obtain name ml where c: "c = (name, ml)" by (cases c)
  obtain ident st' where g: "getUniqueId name ml st = Some (ident, st')"
    using getUniqueId_Some by blast
  from Cons [of st'] show ?case by (auto simp: c g allocateAll_simps)
qed

lemma allocateAll_length: "allocateAll calls st = Some ids \<Longrightarrow> length ids = length calls"
  by (induction calls arbitrary: st ids) (auto simp: allocateAll_simps split: option.splits)

lemma allocateAll_later_distinct:
  "allocateAll calls st = Some ids \<Longrightarrow> issued st ident0 name0 \<Longrightarrow> j < length calls \<Longrightarrow>
   fst (calls ! j) \<noteq> name0 \<Longrightarrow> ids ! j \<noteq> ident0"
proof (induction calls arbitrary: st ids j)
  case Nil
  then show ?case by simp
next
  case (Cons c calls)
  obtain name ml where c: "c = (name, ml)" by (cases c)
  from Cons.prems(1) obtain ident st' rest where
    g: "getUniqueId name ml st = Some (ident, st')" and
    r: "allocateAll calls st' = Some rest" and ids: "ids = ident # rest"
    by (auto simp: c allocateAll_simps split: option.splits)
  show ?case
  proof (cases j)
    case 0
    with Cons.prems c g ids getUniqueId_distinct show ?thesis by auto
  next
    case (Suc k)
    have "issued st' ident0 name0"
      using Cons.prems(2) getUniqueId_frame [OF g] by (rule issued_frame)
    from Cons.IH [OF r this, of k] Cons.prems(3,4) Suc ids show ?thesis by simp
  qed
qed

lemma allocateAll_later_stable:
  "allocateAll calls st = Some ids \<Longrightarrow> getUniqueId name0 ml0 st0 = Some (ident0, st1) \<Longrightarrow>
   frame st1 st \<Longrightarrow> j < length calls \<Longrightarrow> calls ! j = (name0, ml0) \<Longrightarrow> ids ! j = ident0"
proof (induction calls arbitrary: st ids j)
  case Nil
  then show ?case by simp
next
  case (Cons c calls)
  obtain name ml where c: "c = (name, ml)" by (cases c)
  from Cons.prems(1) obtain ident st' rest where
    g: "getUniqueId name ml st = Some (ident, st')" and
    r: "allocateAll calls st' = Some rest" and ids: "ids = ident # rest"
    by (auto simp: c allocateAll_simps split: option.splits)
  show ?case
  proof (cases j)
    case 0
    with Cons.prems(5) c have "name = name0" "ml = ml0" by auto
    with getUniqueId_stable [OF Cons.prems(2,3)] g ids 0 show ?thesis by auto
  next
    case (Suc k)
    have "frame st1 st'" using Cons.prems(3) getUniqueId_frame [OF g] by (rule frame_trans)
    from Cons.IH [OF r Cons.prems(2) this, of k] Cons.prems(4,5) Suc ids show ?thesis by simp
  qed
qed

lemma allocateAll_pairs:
  "allocateAll calls st = Some ids \<Longrightarrow> i < j \<Longrightarrow> j < length calls \<Longrightarrow>
   (fst (calls ! i) \<noteq> fst (calls ! j) \<longrightarrow> ids ! i \<noteq> ids ! j) \<and>
   (calls ! i = calls ! j \<longrightarrow> ids ! i = ids ! j)"
proof (induction calls arbitrary: st ids i j)
  case Nil
  then show ?case by simp
next
  case (Cons c calls)
  obtain name ml where c: "c = (name, ml)" by (cases c)
  from Cons.prems(1) obtain ident st' rest where
    g: "getUniqueId name ml st = Some (ident, st')" and
    r: "allocateAll calls st' = Some rest" and ids: "ids = ident # rest"
    by (auto simp: c allocateAll_simps split: option.splits)
  from Cons.prems(2) obtain k where j: "j = Suc k" by (cases j) auto
  show ?case
  proof (cases i)
    case 0
    have k: "k < length calls" using Cons.prems(3) j by simp
    have d: "fst (calls ! k) \<noteq> name \<Longrightarrow> rest ! k \<noteq> ident"
      using allocateAll_later_distinct [OF r getUniqueId_issued [OF g] k] by simp
    have s: "calls ! k = (name, ml) \<Longrightarrow> rest ! k = ident"
      using allocateAll_later_stable [OF r g frame_refl k] by simp
    from d s show ?thesis by (auto simp: 0 j ids c)
  next
    case (Suc i')
    from Cons.IH [OF r, of i' k] Cons.prems(2,3) show ?thesis by (simp add: Suc j ids)
  qed
qed

text \<open>
  C2, as the claim states it, fails: the same display name asked for once without
  \<open>minLength\<close> and once with it receives two identifiers, because the padding changes
  the base before the search for a free identifier starts.
\<close>

theorem getUniqueId_minLength_counterexample:
  "\<not> (\<forall>calls ids i j. allocateAll calls emptyPass = Some ids \<and> i < length calls \<and>
        j < length calls \<and> fst (calls ! i) = fst (calls ! j) \<longrightarrow> ids ! i = ids ! j)"
proof
  assume a: "\<forall>calls ids i j. allocateAll calls emptyPass = Some ids \<and> i < length calls \<and>
        j < length calls \<and> fst (calls ! i) = fst (calls ! j) \<longrightarrow> ids ! i = ids ! j"
  have e: "allocateAll [(js ''A'', None), (js ''A'', Some 3)] emptyPass = Some [js ''A'', js ''A__'']"
    by code_simp
  from a [rule_format, of "[(js ''A'', None), (js ''A'', Some 3)]" "[js ''A'', js ''A__'']" 0 1] e
  have "js ''A'' = js ''A__''" by simp
  then show False by (simp add: js_def)
qed

text \<open>
  C2, amended. For every sequence of calls of \<open>getUniqueId\<close> from the start of a pass,
  every call returns, no two calls with distinct display names return the same
  identifier, and every two calls with the same display name and the same \<open>minLength\<close>
  argument (both without one, or both with the same one) return the same identifier.
\<close>

theorem getUniqueId_unique_stable:
  "\<exists>ids. allocateAll calls emptyPass = Some ids \<and> length ids = length calls \<and>
     (\<forall>i j. i < j \<and> j < length calls \<longrightarrow>
        (fst (calls ! i) \<noteq> fst (calls ! j) \<longrightarrow> ids ! i \<noteq> ids ! j) \<and>
        (calls ! i = calls ! j \<longrightarrow> ids ! i = ids ! j))"
proof -
  obtain ids where ids: "allocateAll calls emptyPass = Some ids"
    using allocateAll_Some by blast
  with allocateAll_length allocateAll_pairs show ?thesis by blast
qed

text \<open>
  The theorem at six calls: \<open>A b\<close> and \<open>A_b\<close> sanitize to the same base and receive
  \<open>A_b\<close> and \<open>A_b2\<close>; the repeated calls receive the identifier of the first one.
\<close>

theorem getUniqueId_unique_stable_witness:
  "allocateAll [(js ''A b'', None), (js ''A_b'', None), (js ''A b'', None),
                (js ''X'', Some 3), (js ''A_b'', None), (js ''X'', Some 3)] emptyPass
     = Some [js ''A_b'', js ''A_b2'', js ''A_b'', js ''X__'', js ''A_b2'', js ''X__'']"
proof -
  have e: "allocateAll [(js ''A b'', None), (js ''A_b'', None), (js ''A b'', None),
                (js ''X'', Some 3), (js ''A_b'', None), (js ''X'', Some 3)] emptyPass
     = Some [js ''A_b'', js ''A_b2'', js ''A_b'', js ''X__'', js ''A_b2'', js ''X__'']"
    by code_simp
  show ?thesis
    using getUniqueId_unique_stable [of "[(js ''A b'', None), (js ''A_b'', None),
      (js ''A b'', None), (js ''X'', Some 3), (js ''A_b'', None), (js ''X'', Some 3)]"] e
    by simp
qed

section \<open>Properties of the flowchart tokenizer\<close>

lemma indexOfFrom_ge: "indexOfFrom needle s from = Some e \<Longrightarrow> min from (length s) \<le> e"
  by (auto simp: indexOfFrom_def Let_def)

lemma tryArrow_advance: "tryArrow rest pos = Some (p, t) \<Longrightarrow> pos < p"
  by (auto simp: tryArrow_def split: option.splits if_splits)

lemma tryId_advance: "tryId rest pos = Some (p, t) \<Longrightarrow> pos < p"
  by (auto simp: tryId_def split: option.splits if_splits)

lemma tryDecision_advance: "pos < length rest \<Longrightarrow> tryDecision rest pos = Some (p, t) \<Longrightarrow> pos < p"
  by (auto simp: tryDecision_def split: option.splits if_splits dest!: indexOfFrom_ge)

lemma tryQuoted_advance: "pos < length rest \<Longrightarrow> tryQuoted rest pos = Some (p, t) \<Longrightarrow> pos < p"
  by (auto simp: tryQuoted_def split: option.splits if_splits dest!: indexOfFrom_ge)

lemma tryRound_advance: "pos < length rest \<Longrightarrow> tryRound rest pos = Some (p, t) \<Longrightarrow> pos < p"
  by (auto simp: tryRound_def split: option.splits if_splits dest!: indexOfFrom_ge)

lemma flowStep_advance:
  assumes "pos < length rest"
  shows "pos < fst (flowStep rest pos)"
proof (cases "case charAt rest pos of Some c \<Rightarrow> isSpace c | None \<Rightarrow> False")
  case True
  then show ?thesis by (simp add: flowStep_def)
next
  case sp: False
  show ?thesis
  proof (cases "tryArrow rest pos")
    case (Some r)
    then obtain p t where "tryArrow rest pos = Some (p, t)" by (cases r) simp
    with sp tryArrow_advance [of rest pos p t] show ?thesis by (simp add: flowStep_def)
  next
    case a: None
    show ?thesis
    proof (cases "tryDecision rest pos")
      case (Some r)
      then obtain p t where "tryDecision rest pos = Some (p, t)" by (cases r) simp
      with sp a tryDecision_advance [OF assms, of p t] show ?thesis by (simp add: flowStep_def)
    next
      case d: None
      show ?thesis
      proof (cases "tryQuoted rest pos")
        case (Some r)
        then obtain p t where "tryQuoted rest pos = Some (p, t)" by (cases r) simp
        with sp a d tryQuoted_advance [OF assms, of p t] show ?thesis by (simp add: flowStep_def)
      next
        case q: None
        show ?thesis
        proof (cases "tryRound rest pos")
          case (Some r)
          then obtain p t where "tryRound rest pos = Some (p, t)" by (cases r) simp
          with sp a d q tryRound_advance [OF assms, of p t] show ?thesis
            by (simp add: flowStep_def)
        next
          case r: None
          show ?thesis
          proof (cases "tryId rest pos")
            case (Some r')
            then obtain p t where "tryId rest pos = Some (p, t)" by (cases r') simp
            with sp a d q r tryId_advance [of rest pos p t] show ?thesis
              by (simp add: flowStep_def)
          next
            case None
            with sp a d q r show ?thesis by (simp add: flowStep_def)
          qed
        qed
      qed
    qed
  qed
qed

lemma flowLoop_returns: "\<exists>out. flowLoop rest pos tokens = Some out"
proof (induction "length rest - pos" arbitrary: pos tokens rule: less_induct)
  case less
  show ?case
  proof (cases "pos < length rest")
    case True
    obtain p tok where s: "flowStep rest pos = (p, tok)" by (cases "flowStep rest pos")
    with flowStep_advance [OF True] have "pos < p" by simp
    with True have "length rest - p < length rest - pos" by arith
    from less [OF this] obtain out where
      "flowLoop rest p (tokens @ (case tok of None \<Rightarrow> [] | Some t \<Rightarrow> [t])) = Some out"
      by blast
    with True s show ?thesis by (subst flowLoop.simps) simp
  next
    case False
    then show ?thesis by (subst flowLoop.simps) simp
  qed
qed

lemma preprocessFlowLine_returns: "\<exists>out st'. preprocessFlowLine inh line st = Some (out, st')"
proof -
  obtain toks where "flowLoop (trim line) 0 [] = Some toks" using flowLoop_returns by blast
  then show ?thesis
    by (cases "renderTokens inh toks st") (simp add: preprocessFlowLine_def Let_def)
qed

text \<open>
  C10. At every position inside the line one iteration of the scanning loop moves the
  position forward by at least one code unit, whichever branch it takes; so the loop
  returns for every line, every start position and every token list, and
  \<open>preprocessFlowLine\<close> returns for every line.
\<close>

theorem flowLoop_terminates:
  "(pos < length rest \<longrightarrow> pos < fst (flowStep rest pos)) \<and>
   (\<exists>tokens'. flowLoop rest pos tokens = Some tokens') \<and>
   (\<exists>out st'. preprocessFlowLine inh line st = Some (out, st'))"
  using flowStep_advance flowLoop_returns preprocessFlowLine_returns by blast

text \<open>
  The theorem at the line \<open>"A b" -->|x| {"C?"} id1 ;\<close>: the first iteration consumes
  the quoted node, five code units, and the loop returns four tokens.
\<close>

theorem flowLoop_terminates_witness:
  "0 < length (js ''\"A b\" -->|x| {\"C?\"} id1 ;'') \<and>
   0 < fst (flowStep (js ''\"A b\" -->|x| {\"C?\"} id1 ;'') 0) \<and>
   fst (flowStep (js ''\"A b\" -->|x| {\"C?\"} id1 ;'') 0) = 5 \<and>
   flowLoop (js ''\"A b\" -->|x| {\"C?\"} id1 ;'') 0 [] =
     Some [Node (js ''A b'') Rect, Arrow (js ''-->|x|''), Node (js ''C?'') Diamond,
           Raw (js ''id1'')]"
proof -
  have h: "0 < length (js ''\"A b\" -->|x| {\"C?\"} id1 ;'')"
    by (simp add: js_def)
  have e1: "fst (flowStep (js ''\"A b\" -->|x| {\"C?\"} id1 ;'') 0) = 5"
    by code_simp
  have e2: "flowLoop (js ''\"A b\" -->|x| {\"C?\"} id1 ;'') 0 [] =
     Some [Node (js ''A b'') Rect, Arrow (js ''-->|x|''), Node (js ''C?'') Diamond,
           Raw (js ''id1'')]"
    by code_simp
  show ?thesis
    using flowLoop_terminates [of 0 "js ''\"A b\" -->|x| {\"C?\"} id1 ;''" "[]"] h e1 e2
    by blast
qed

section \<open>Properties of the label cache\<close>

lemma probeFlowId_fresh: "probeFlowId used base ident n \<notin> set used"
  by (induction used base ident n rule: probeFlowId.induct)
     (subst probeFlowId.simps, auto)

lemma probeFlowId_prefix: "prefix base ident \<Longrightarrow> prefix base (probeFlowId used base ident n)"
  by (induction used base ident n rule: probeFlowId.induct)
     (subst probeFlowId.simps, auto)

lemma probeFlowId_nonempty: "probeFlowId used (sanitizeName label) (sanitizeName label) n \<noteq> []"
proof -
  have "prefix (sanitizeName label) (probeFlowId used (sanitizeName label) (sanitizeName label) n)"
    by (rule probeFlowId_prefix) simp
  with sanitizeName_hd [of label] show ?thesis by auto
qed

lemma allocateFlowNodeId_changes: "snd (allocateFlowNodeId label st) \<noteq> st"
proof
  assume e: "snd (allocateFlowNodeId label st) = st"
  let ?i = "probeFlowId (usedIds st) (sanitizeName label) (sanitizeName label) 2"
  from e have "usedIds (snd (allocateFlowNodeId label st)) = usedIds st" by simp
  then have "List.insert ?i (usedIds st) = usedIds st"
    by (simp add: allocateFlowNodeId_def Let_def)
  then have "?i \<in> set (usedIds st)" by (metis in_set_insert insert_Nil list.distinct(1) List.insert_def list.set_intros(1))
  with probeFlowId_fresh show False by blast
qed


lemma getFlowNodeId_cases:
  obtains (cached) ident where "map_of (nodeIdMap st) label = Some ident" "ident \<noteq> []"
      "getFlowNodeId label st = (Ident ident, st)"
  | (inherited) "map_of (nodeIdMap st) label = None" "label \<in> set objectPrototypeKeys"
      "getFlowNodeId label st = (Inherited label, st)"
  | (fresh) "map_of (nodeIdMap st) label = None" "label \<notin> set objectPrototypeKeys"
      "getFlowNodeId label st = allocateFlowNodeId label st"
  | (falsy) "map_of (nodeIdMap st) label = Some []"
      "getFlowNodeId label st = allocateFlowNodeId label st"
  by (cases "map_of (nodeIdMap st) label") (auto simp: getFlowNodeId_def)

lemma proto_key: "js ''__proto__'' \<in> set objectPrototypeKeys"
  by (simp add: objectPrototypeKeys_def)

lemma nodeIdMap_allocate:
  "label \<noteq> js ''__proto__'' \<Longrightarrow>
   map_of (nodeIdMap (snd (allocateFlowNodeId label st))) =
     (map_of (nodeIdMap st))(label \<mapsto>
        probeFlowId (usedIds st) (sanitizeName label) (sanitizeName label) 2)"
  by (simp add: allocateFlowNodeId_def Let_def map_of_objSet)

lemma fst_allocate:
  "fst (allocateFlowNodeId label st) =
     Ident (probeFlowId (usedIds st) (sanitizeName label) (sanitizeName label) 2)"
  by (simp add: allocateFlowNodeId_def Let_def)

lemma getFlowNodeId_cacheTruthy:
  assumes "cacheTruthy st" "getFlowNodeId label st = (v, st')"
  shows "cacheTruthy st'"
proof (cases rule: getFlowNodeId_cases [of st label])
  case (cached ident)
  with assms show ?thesis by simp
next
  case inherited
  with assms show ?thesis by simp
next
  case fresh
  then have np: "label \<noteq> js ''__proto__''" using proto_key by auto
  from fresh(3) assms(2) have s: "st' = snd (allocateFlowNodeId label st)"
    by (metis snd_conv)
  show ?thesis unfolding cacheTruthy_def
  proof (intro allI impI)
    fix k ident
    assume "map_of (nodeIdMap st') k = Some ident"
    then have "((map_of (nodeIdMap st))(label \<mapsto>
        probeFlowId (usedIds st) (sanitizeName label) (sanitizeName label) 2)) k = Some ident"
      using nodeIdMap_allocate [OF np, of st] s by simp
    then show "ident \<noteq> []"
      using assms(1) probeFlowId_nonempty [of "usedIds st" label 2]
      by (auto simp: cacheTruthy_def split: if_splits)
  qed
next
  case falsy
  with assms show ?thesis by (auto simp: cacheTruthy_def)
qed

lemma getFlowNodeId_resolves:
  assumes "cacheTruthy st" "getFlowNodeId label st = (v, st')"
  shows "resolves st' label v"
proof (cases rule: getFlowNodeId_cases [of st label])
  case (cached ident)
  with assms show ?thesis by (simp add: resolves_def)
next
  case inherited
  with assms show ?thesis by (simp add: resolves_def)
next
  case fresh
  then have np: "label \<noteq> js ''__proto__''" using proto_key by auto
  let ?i = "probeFlowId (usedIds st) (sanitizeName label) (sanitizeName label) 2"
  from fresh(3) assms(2) have v: "v = Ident ?i" and s: "st' = snd (allocateFlowNodeId label st)"
    using fst_allocate [of label st] by (metis fst_conv, metis snd_conv)
  have "map_of (nodeIdMap st') label = Some ?i"
    using nodeIdMap_allocate [OF np, of st] s by simp
  with probeFlowId_nonempty [of "usedIds st" label 2] v show ?thesis
    by (simp add: resolves_def getFlowNodeId_def)
next
  case falsy
  with assms show ?thesis by (auto simp: cacheTruthy_def)
qed

lemma resolves_kept:
  assumes "resolves st label v" "getFlowNodeId label' st = (v', st')"
  shows "resolves st' label v"
proof (cases "st' = st")
  case True
  with assms show ?thesis by simp
next
  case False
  with assms(2) have al: "getFlowNodeId label' st = allocateFlowNodeId label' st"
    by (cases rule: getFlowNodeId_cases [of st label']) auto
  have ne: "label' \<noteq> label"
  proof
    assume "label' = label"
    with assms have "st' = st" by (simp add: resolves_def)
    with False show False by simp
  qed
  have s: "st' = snd (allocateFlowNodeId label' st)" using al assms(2) by (metis snd_conv)
  have m: "map_of (nodeIdMap st') label = map_of (nodeIdMap st) label"
    using ne s by (auto simp: allocateFlowNodeId_def Let_def objSet_def update_conv')
  have na: "getFlowNodeId label st \<noteq> allocateFlowNodeId label st"
    using assms(1) allocateFlowNodeId_changes [of label st]
    by (metis resolves_def snd_conv)
  show ?thesis
  proof (cases rule: getFlowNodeId_cases [of st label])
    case (cached ident)
    with assms(1) m show ?thesis by (simp add: resolves_def getFlowNodeId_def)
  next
    case inherited
    with assms(1) m show ?thesis by (simp add: resolves_def getFlowNodeId_def)
  next
    case fresh
    with na show ?thesis by simp
  next
    case falsy
    with na show ?thesis by simp
  qed
qed


lemma renderTokens_acc:
  "foldl (renderStep inh) (acc, st) toks =
     (acc @ fst (renderTokens inh toks st), snd (renderTokens inh toks st))"
proof (induction toks arbitrary: acc st)
  case Nil
  then show ?case by (simp add: renderTokens_def)
next
  case (Cons t ts)
  obtain p st1 where r: "renderToken inh t st = (p, st1)" by (cases "renderToken inh t st")
  have "foldl (renderStep inh) (acc, st) (t # ts) = foldl (renderStep inh) (acc @ [p], st1) ts"
    by (simp add: r)
  also have "\<dots> = ((acc @ [p]) @ fst (renderTokens inh ts st1), snd (renderTokens inh ts st1))"
    by (rule Cons.IH)
  finally have a: "foldl (renderStep inh) (acc, st) (t # ts) =
      (acc @ p # fst (renderTokens inh ts st1), snd (renderTokens inh ts st1))"
    by simp
  have "renderTokens inh (t # ts) st = foldl (renderStep inh) ([p], st1) ts"
    by (simp add: renderTokens_def r)
  also have "\<dots> = ([p] @ fst (renderTokens inh ts st1), snd (renderTokens inh ts st1))"
    by (rule Cons.IH)
  finally have "renderTokens inh (t # ts) st =
      (p # fst (renderTokens inh ts st1), snd (renderTokens inh ts st1))"
    by simp
  with a show ?case by simp
qed

lemma renderTokens_Nil: "renderTokens inh [] st = ([], st)"
  by (simp add: renderTokens_def)

lemma renderTokens_Cons:
  "renderTokens inh (t # ts) st =
     (fst (renderToken inh t st) # fst (renderTokens inh ts (snd (renderToken inh t st))),
      snd (renderTokens inh ts (snd (renderToken inh t st))))"
proof -
  obtain p st1 where r: "renderToken inh t st = (p, st1)" by (cases "renderToken inh t st")
  have "renderTokens inh (t # ts) st = foldl (renderStep inh) ([p], st1) ts"
    by (simp add: renderTokens_def r)
  then show ?thesis by (simp add: renderTokens_acc r)
qed

lemma renderTokens_append:
  "renderTokens inh (xs @ ys) st =
     (fst (renderTokens inh xs st) @ fst (renderTokens inh ys (snd (renderTokens inh xs st))),
      snd (renderTokens inh ys (snd (renderTokens inh xs st))))"
  by (induction xs arbitrary: st) (simp_all add: renderTokens_Nil renderTokens_Cons)

lemma length_renderTokens: "length (fst (renderTokens inh toks st)) = length toks"
  by (induction toks arbitrary: st) (simp_all add: renderTokens_Nil renderTokens_Cons)

lemma renderToken_state:
  assumes "cacheTruthy st"
  shows "cacheTruthy (snd (renderToken inh t st)) \<and>
         (resolves st label v \<longrightarrow> resolves (snd (renderToken inh t st)) label v)"
proof (cases t)
  case (Arrow raw)
  with assms show ?thesis by (simp add: renderToken_def)
next
  case (Raw raw)
  with assms show ?thesis by (simp add: renderToken_def)
next
  case (Node l sh)
  obtain v' st' where g: "getFlowNodeId l st = (v', st')" by (cases "getFlowNodeId l st")
  with Node have "snd (renderToken inh t st) = st'" by (simp add: renderToken_def)
  with g assms getFlowNodeId_cacheTruthy resolves_kept show ?thesis by metis
qed

lemma renderTokens_state:
  "cacheTruthy st \<Longrightarrow>
   cacheTruthy (snd (renderTokens inh toks st)) \<and>
   (resolves st label v \<longrightarrow> resolves (snd (renderTokens inh toks st)) label v)"
proof (induction toks arbitrary: st)
  case Nil
  then show ?case by (simp add: renderTokens_Nil)
next
  case (Cons t ts)
  from renderToken_state [OF Cons.prems, of inh t label v]
    Cons.IH [of "snd (renderToken inh t st)"]
  show ?case by (simp add: renderTokens_Cons)
qed

lemma renderToken_Node:
  "resolves st label v \<Longrightarrow>
   renderToken inh (Node label sh) st = (idText inh v @ shapeText sh label, st)"
  by (simp add: renderToken_def resolves_def)

lemma renderTokens_first_node:
  assumes "cacheTruthy st"
  shows "\<exists>v. fst (renderTokens inh (ts1 @ Node label sh # ts2) st) ! length ts1 =
              idText inh v @ shapeText sh label \<and>
            resolves (snd (renderTokens inh (ts1 @ Node label sh # ts2) st)) label v \<and>
            (\<forall>v0. resolves st label v0 \<longrightarrow> v = v0)"
proof -
  let ?stA = "snd (renderTokens inh ts1 st)"
  obtain v stB where g: "getFlowNodeId label ?stA = (v, stB)"
    by (cases "getFlowNodeId label ?stA")
  have cA: "cacheTruthy ?stA" using renderTokens_state [OF assms] by blast
  have rB: "resolves stB label v" using getFlowNodeId_resolves [OF cA g] .
  have cB: "cacheTruthy stB" using getFlowNodeId_cacheTruthy [OF cA g] .
  have tok: "renderToken inh (Node label sh) ?stA = (idText inh v @ shapeText sh label, stB)"
    by (simp add: renderToken_def g)
  have parts: "fst (renderTokens inh (ts1 @ Node label sh # ts2) st) =
      fst (renderTokens inh ts1 st) @ (idText inh v @ shapeText sh label) #
      fst (renderTokens inh ts2 stB)"
    by (simp add: renderTokens_append renderTokens_Cons tok)
  have st': "snd (renderTokens inh (ts1 @ Node label sh # ts2) st) =
      snd (renderTokens inh ts2 stB)"
    by (simp add: renderTokens_append renderTokens_Cons tok)
  have a: "fst (renderTokens inh (ts1 @ Node label sh # ts2) st) ! length ts1 =
      idText inh v @ shapeText sh label"
    unfolding parts using length_renderTokens [of inh ts1 st]
    by (metis nth_append_length)
  have b: "resolves (snd (renderTokens inh (ts1 @ Node label sh # ts2) st)) label v"
    unfolding st' using renderTokens_state [OF cB, of inh ts2 label v] rB by blast
  have c: "\<forall>v0. resolves st label v0 \<longrightarrow> v = v0"
  proof (intro allI impI)
    fix v0
    assume "resolves st label v0"
    then have "resolves ?stA label v0" using renderTokens_state [OF assms] by blast
    with g show "v = v0" by (simp add: resolves_def)
  qed
  from a b c show ?thesis by blast
qed

lemma flowLine_state:
  assumes "cacheTruthy st" "flowLine inh line (out, st) = Some (out', st')"
  shows "cacheTruthy st' \<and> (resolves st label v \<longrightarrow> resolves st' label v)"
proof (cases "isFlowPassThrough (trim line)")
  case True
  with assms show ?thesis by simp
next
  case False
  with assms(2) obtain l where p: "preprocessFlowLine inh line st = Some (l, st')"
    by auto
  then obtain toks parts where "renderTokens inh toks st = (parts, st')"
    by (auto simp: preprocessFlowLine_def Let_def split: option.splits prod.splits)
  then have "st' = snd (renderTokens inh toks st)" by simp
  with renderTokens_state [OF assms(1)] show ?thesis by blast
qed

lemma flowLines_state:
  "cacheTruthy st \<Longrightarrow> foldOption (flowLine inh) lines (out, st) = Some (out', st') \<Longrightarrow>
   cacheTruthy st' \<and> (resolves st label v \<longrightarrow> resolves st' label v)"
proof (induction lines arbitrary: out st)
  case Nil
  then show ?case by simp
next
  case (Cons line lines)
  from Cons.prems(2) obtain out1 st1 where
    1: "flowLine inh line (out, st) = Some (out1, st1)" and
    2: "foldOption (flowLine inh) lines (out1, st1) = Some (out', st')"
    by (cases "flowLine inh line (out, st)") auto
  from flowLine_state [OF Cons.prems(1) 1, of label v] Cons.IH [OF _ 2]
  show ?case by blast
qed

lemma getFlowNodeId_ident:
  assumes "cacheTruthy st" "label \<notin> set objectPrototypeKeys" "getFlowNodeId label st = (v, st')"
  shows "\<exists>ident. v = Ident ident \<and> ident \<noteq> [] \<and> map_of (nodeIdMap st') label = Some ident"
proof (cases rule: getFlowNodeId_cases [of st label])
  case (cached ident)
  with assms show ?thesis by simp
next
  case inherited
  with assms show ?thesis by simp
next
  case fresh
  then have np: "label \<noteq> js ''__proto__''" using proto_key by auto
  let ?i = "probeFlowId (usedIds st) (sanitizeName label) (sanitizeName label) 2"
  from fresh(3) assms(3) have v: "v = Ident ?i" and s: "st' = snd (allocateFlowNodeId label st)"
    using fst_allocate [of label st] by (metis fst_conv, metis snd_conv)
  have "map_of (nodeIdMap st') label = Some ?i"
    using nodeIdMap_allocate [OF np, of st] s by simp
  with probeFlowId_nonempty [of "usedIds st" label 2] v show ?thesis by simp
next
  case falsy
  with assms show ?thesis by (auto simp: cacheTruthy_def)
qed

lemma resolves_ident:
  assumes "cacheTruthy st" "label \<notin> set objectPrototypeKeys" "resolves st label v"
  shows "\<exists>ident. v = Ident ident \<and> ident \<noteq> [] \<and> map_of (nodeIdMap st) label = Some ident"
  using getFlowNodeId_ident [OF assms(1,2)] assms(3) by (simp add: resolves_def)

lemma label_cache_same_list:
  assumes "cacheTruthy st" "label \<notin> set objectPrototypeKeys"
  shows "\<exists>ident. ident \<noteq> [] \<and>
      fst (renderTokens inh (ts1 @ Node label s1 # ts2 @ Node label s2 # ts3) st) ! length ts1
        = ident @ shapeText s1 label \<and>
      fst (renderTokens inh (ts1 @ Node label s1 # ts2 @ Node label s2 # ts3) st) !
        (length ts1 + 1 + length ts2) = ident @ shapeText s2 label \<and>
      map_of (nodeIdMap (snd (renderTokens inh (ts1 @ [Node label s1]) st))) label = Some ident \<and>
      getFlowNodeId label (snd (renderTokens inh (ts1 @ Node label s1 # ts2) st)) =
        (Ident ident, snd (renderTokens inh (ts1 @ Node label s1 # ts2) st)) \<and>
      map_of (nodeIdMap (snd (renderTokens inh
        (ts1 @ Node label s1 # ts2 @ Node label s2 # ts3) st))) label = Some ident"
proof -
  let ?all = "ts1 @ Node label s1 # ts2 @ Node label s2 # ts3"
  let ?front = "ts1 @ [Node label s1]"
  let ?mid = "ts1 @ Node label s1 # ts2"
  let ?rest = "ts2 @ Node label s2 # ts3"
  let ?stA = "snd (renderTokens inh ?front st)"
  let ?stM = "snd (renderTokens inh ?mid st)"
  let ?stE = "snd (renderTokens inh ?all st)"
  have split: "?all = ?front @ ?rest" by simp
  from renderTokens_first_node [OF assms(1), of inh ts1 label s1 "[]"] obtain v where
    a: "fst (renderTokens inh ?front st) ! length ts1 = idText inh v @ shapeText s1 label" and
    r: "resolves ?stA label v"
    by auto
  have cA: "cacheTruthy ?stA" using renderTokens_state [OF assms(1)] by blast
  from resolves_ident [OF cA assms(2) r] obtain ident where
    v: "v = Ident ident" and ne: "ident \<noteq> []" and
    mA: "map_of (nodeIdMap ?stA) label = Some ident"
    by blast
  have mid: "?stM = snd (renderTokens inh ts2 ?stA)"
    using renderTokens_append [of inh ?front ts2 st] by simp
  have cM: "cacheTruthy ?stM" using renderTokens_state [OF assms(1)] by blast
  have rM: "resolves ?stM label v" unfolding mid using renderTokens_state [OF cA] r by blast
  have "?stE = snd (renderTokens inh (Node label s2 # ts3) ?stM)"
    using renderTokens_append [of inh ?mid "Node label s2 # ts3" st] by simp
  then have rE: "resolves ?stE label v" using renderTokens_state [OF cM] rM by metis
  have cE: "cacheTruthy ?stE" using renderTokens_state [OF assms(1)] by blast
  from resolves_ident [OF cE assms(2) rE] v
  have mE: "map_of (nodeIdMap ?stE) label = Some ident" by auto
  from renderTokens_first_node [OF cA, of inh ts2 label s2 ts3] r
  have b: "fst (renderTokens inh ?rest ?stA) ! length ts2 = idText inh v @ shapeText s2 label"
    by auto
  have parts: "fst (renderTokens inh ?all st) =
      fst (renderTokens inh ?front st) @ fst (renderTokens inh ?rest ?stA)"
    unfolding split by (simp only: renderTokens_append fst_conv)
  have lf: "length (fst (renderTokens inh ?front st)) = length ts1 + 1"
    by (simp add: length_renderTokens)
  have 1: "fst (renderTokens inh ?all st) ! length ts1 = ident @ shapeText s1 label"
    unfolding parts using a lf v by (simp add: nth_append idText_def)
  have 2: "fst (renderTokens inh ?all st) ! (length ts1 + 1 + length ts2) =
      ident @ shapeText s2 label"
    unfolding parts using b lf v by (simp add: nth_append idText_def)
  have 3: "getFlowNodeId label ?stM = (Ident ident, ?stM)"
    using rM v by (simp add: resolves_def)
  from ne 1 2 mA 3 mE show ?thesis by blast
qed

lemma label_cache_across_lines:
  assumes "cacheTruthy st" "label \<notin> set objectPrototypeKeys"
    and "renderTokens inh (ts1 @ Node label s1 # ts2) st = (partsA, stA)"
    and "foldOption (flowLine inh) between (outA, stA) = Some (outB, stB)"
    and "renderTokens inh (ts3 @ Node label s2 # ts4) stB = (partsB, stC)"
  shows "\<exists>ident. ident \<noteq> [] \<and>
      partsA ! length ts1 = ident @ shapeText s1 label \<and>
      partsB ! length ts3 = ident @ shapeText s2 label \<and>
      map_of (nodeIdMap stA) label = Some ident \<and>
      map_of (nodeIdMap stB) label = Some ident \<and>
      getFlowNodeId label (snd (renderTokens inh ts3 stB)) =
        (Ident ident, snd (renderTokens inh ts3 stB)) \<and>
      map_of (nodeIdMap stC) label = Some ident"
proof -
  from renderTokens_first_node [OF assms(1), of inh ts1 label s1 ts2] assms(3) obtain v where
    a: "partsA ! length ts1 = idText inh v @ shapeText s1 label" and
    r: "resolves stA label v"
    by auto
  have cA: "cacheTruthy stA" using renderTokens_state [OF assms(1), of inh] assms(3)
    by (metis snd_conv)
  from flowLines_state [OF cA assms(4)] r have cB: "cacheTruthy stB" and rB: "resolves stB label v"
    by blast+
  let ?stM = "snd (renderTokens inh ts3 stB)"
  have cM: "cacheTruthy ?stM" and rM: "resolves ?stM label v"
    using renderTokens_state [OF cB] rB by blast+
  have sC: "stC = snd (renderTokens inh (Node label s2 # ts4) ?stM)"
    using renderTokens_append [of inh ts3 "Node label s2 # ts4" stB] assms(5) by simp
  have cC: "cacheTruthy stC" and rC: "resolves stC label v"
    unfolding sC using renderTokens_state [OF cM] rM by blast+
  from resolves_ident [OF cA assms(2) r] obtain ident where
    v: "v = Ident ident" and ne: "ident \<noteq> []" and mA: "map_of (nodeIdMap stA) label = Some ident"
    by blast
  from resolves_ident [OF cB assms(2) rB] v have mB: "map_of (nodeIdMap stB) label = Some ident"
    by auto
  from resolves_ident [OF cC assms(2) rC] v have mC: "map_of (nodeIdMap stC) label = Some ident"
    by auto
  from renderTokens_first_node [OF cB, of inh ts3 label s2 ts4] rB assms(5)
  have b: "partsB ! length ts3 = idText inh v @ shapeText s2 label" by auto
  have g: "getFlowNodeId label ?stM = (Ident ident, ?stM)" using rM v by (simp add: resolves_def)
  from ne a b mA mB g mC v show ?thesis by (auto simp: idText_def)
qed

lemma cacheTruthy_empty: "cacheTruthy emptyFlowPass"
  by (simp add: cacheTruthy_def emptyFlowPass_def)

text \<open>
  C8. The cache \<open>nodeIdMap\<close> is created as \<open>{}\<close>, so a look-up also finds what the object
  inherits. For a label that names a property of \<open>Object.prototype\<close> and is no own key
  of the cache, \<open>getFlowNodeId\<close> returns the inherited value and leaves the state as it
  is: no identifier is allocated and nothing is cached. In the flowchart with the lines
  \<open>"constructor" --> "B"\<close> and \<open>"B" --> "constructor"\<close> both occurrences of the label
  are rendered as the text of the inherited function followed by \<open>["constructor"]\<close>, and
  the pass leaves the cache and the name mapping with the entry of \<open>B\<close> only.

  For every other label the reuse holds. The cache holds no falsy value at the start of
  a pass, and no call changes that. In such a state, two labeled-node tokens with the
  same label in one token list (one line) are rendered with one non-empty identifier,
  each in the shape syntax of its own token; after the first token the cache holds that
  identifier under the label, the look-up for the second token returns it and leaves the
  state unchanged, and the cache still holds it at the end of the list. The same holds
  for a token of one line and a token of a later line, whatever lines the pass handles
  in between. (\<open>preprocessFlowLine\<close> renders a line as its indentation followed by the
  parts that \<open>renderTokens\<close> returns for its tokens, and \<open>preprocessFlowchart\<close> threads
  the state through the lines with \<open>flowLine\<close>.)
\<close>

theorem flow_label_reuse:
  "(label0 \<in> set objectPrototypeKeys \<longrightarrow> map_of (nodeIdMap st0) label0 = None \<longrightarrow>
      getFlowNodeId label0 st0 = (Inherited label0, st0)) \<and>
   map_option (\<lambda>r. (fst r, nodeIdMap (snd r), nameMapping (snd r)))
     (preprocessFlowchart (\<lambda>k. js ''function Object() { [native code] }'')
        (js ''flowchart TD'' @ [10] @ js ''\"constructor\" --> \"B\"'' @ [10] @
         js ''\"B\" --> \"constructor\"'')) =
     Some (js ''flowchart TD'' @ [10] @
           js ''function Object() { [native code] }[\"constructor\"] --> B[\"B\"]'' @ [10] @
           js ''B[\"B\"] --> function Object() { [native code] }[\"constructor\"]'',
           [(js ''B'', js ''B'')], [(js ''B'', js ''B'')]) \<and>
   cacheTruthy emptyFlowPass \<and>
   (cacheTruthy st \<and> label \<notin> set objectPrototypeKeys \<longrightarrow>
     (\<exists>ident. ident \<noteq> [] \<and>
        fst (renderTokens inh (ts1 @ Node label s1 # ts2 @ Node label s2 # ts3) st) ! length ts1
          = ident @ shapeText s1 label \<and>
        fst (renderTokens inh (ts1 @ Node label s1 # ts2 @ Node label s2 # ts3) st) !
          (length ts1 + 1 + length ts2) = ident @ shapeText s2 label \<and>
        map_of (nodeIdMap (snd (renderTokens inh (ts1 @ [Node label s1]) st))) label =
          Some ident \<and>
        getFlowNodeId label (snd (renderTokens inh (ts1 @ Node label s1 # ts2) st)) =
          (Ident ident, snd (renderTokens inh (ts1 @ Node label s1 # ts2) st)) \<and>
        map_of (nodeIdMap (snd (renderTokens inh
          (ts1 @ Node label s1 # ts2 @ Node label s2 # ts3) st))) label = Some ident) \<and>
     (renderTokens inh (ta @ Node label s1 # tb) st = (partsA, stA) \<longrightarrow>
      foldOption (flowLine inh) between (outA, stA) = Some (outB, stB) \<longrightarrow>
      renderTokens inh (tc @ Node label s2 # td) stB = (partsB, stC) \<longrightarrow>
        cacheTruthy stC \<and>
        (\<exists>ident. ident \<noteq> [] \<and>
           partsA ! length ta = ident @ shapeText s1 label \<and>
           partsB ! length tc = ident @ shapeText s2 label \<and>
           map_of (nodeIdMap stA) label = Some ident \<and>
           map_of (nodeIdMap stB) label = Some ident \<and>
           getFlowNodeId label (snd (renderTokens inh tc stB)) =
             (Ident ident, snd (renderTokens inh tc stB)) \<and>
           map_of (nodeIdMap stC) label = Some ident)))"
proof (intro conjI impI)
  assume "label0 \<in> set objectPrototypeKeys" "map_of (nodeIdMap st0) label0 = None"
  then show "getFlowNodeId label0 st0 = (Inherited label0, st0)"
    by (simp add: getFlowNodeId_def)
next
  show "map_option (\<lambda>r. (fst r, nodeIdMap (snd r), nameMapping (snd r)))
     (preprocessFlowchart (\<lambda>k. js ''function Object() { [native code] }'')
        (js ''flowchart TD'' @ [10] @ js ''\"constructor\" --> \"B\"'' @ [10] @
         js ''\"B\" --> \"constructor\"'')) =
     Some (js ''flowchart TD'' @ [10] @
           js ''function Object() { [native code] }[\"constructor\"] --> B[\"B\"]'' @ [10] @
           js ''B[\"B\"] --> function Object() { [native code] }[\"constructor\"]'',
           [(js ''B'', js ''B'')], [(js ''B'', js ''B'')])"
    by code_simp
next
  show "cacheTruthy emptyFlowPass" by (rule cacheTruthy_empty)
next
  assume "cacheTruthy st \<and> label \<notin> set objectPrototypeKeys"
  then have "cacheTruthy st" "label \<notin> set objectPrototypeKeys" by simp_all
  then show "\<exists>ident. ident \<noteq> [] \<and>
        fst (renderTokens inh (ts1 @ Node label s1 # ts2 @ Node label s2 # ts3) st) ! length ts1
          = ident @ shapeText s1 label \<and>
        fst (renderTokens inh (ts1 @ Node label s1 # ts2 @ Node label s2 # ts3) st) !
          (length ts1 + 1 + length ts2) = ident @ shapeText s2 label \<and>
        map_of (nodeIdMap (snd (renderTokens inh (ts1 @ [Node label s1]) st))) label =
          Some ident \<and>
        getFlowNodeId label (snd (renderTokens inh (ts1 @ Node label s1 # ts2) st)) =
          (Ident ident, snd (renderTokens inh (ts1 @ Node label s1 # ts2) st)) \<and>
        map_of (nodeIdMap (snd (renderTokens inh
          (ts1 @ Node label s1 # ts2 @ Node label s2 # ts3) st))) label = Some ident"
    by (rule label_cache_same_list)
next
  assume "cacheTruthy st \<and> label \<notin> set objectPrototypeKeys"
  then have c: "cacheTruthy st" by simp
  assume a: "renderTokens inh (ta @ Node label s1 # tb) st = (partsA, stA)"
    and b: "foldOption (flowLine inh) between (outA, stA) = Some (outB, stB)"
    and d: "renderTokens inh (tc @ Node label s2 # td) stB = (partsB, stC)"
  have cA: "cacheTruthy stA" using renderTokens_state [OF c, of inh] a by (metis snd_conv)
  have cB: "cacheTruthy stB" using flowLines_state [OF cA b] by blast
  show "cacheTruthy stC" using renderTokens_state [OF cB, of inh] d by (metis snd_conv)
next
  assume "cacheTruthy st \<and> label \<notin> set objectPrototypeKeys"
  then have c: "cacheTruthy st" and n: "label \<notin> set objectPrototypeKeys" by simp_all
  assume a: "renderTokens inh (ta @ Node label s1 # tb) st = (partsA, stA)"
    and b: "foldOption (flowLine inh) between (outA, stA) = Some (outB, stB)"
    and d: "renderTokens inh (tc @ Node label s2 # td) stB = (partsB, stC)"
  from c n a b d show "\<exists>ident. ident \<noteq> [] \<and>
           partsA ! length ta = ident @ shapeText s1 label \<and>
           partsB ! length tc = ident @ shapeText s2 label \<and>
           map_of (nodeIdMap stA) label = Some ident \<and>
           map_of (nodeIdMap stB) label = Some ident \<and>
           getFlowNodeId label (snd (renderTokens inh tc stB)) =
             (Ident ident, snd (renderTokens inh tc stB)) \<and>
           map_of (nodeIdMap stC) label = Some ident"
    by (rule label_cache_across_lines)
qed

text \<open>
  The theorem at the start of a pass: the label \<open>constructor\<close>; and the label
  \<open>Antrag einreichen\<close> twice in one line, and in two lines with the line
  \<open>"Zweite" --> {"OK?"}\<close> between them, with the identifier \<open>Antrag_einreichen\<close> in the
  cache at the end.
\<close>

theorem flow_label_reuse_witness:
  "getFlowNodeId (js ''constructor'') emptyFlowPass =
     (Inherited (js ''constructor''), emptyFlowPass) \<and>
   cacheTruthy emptyFlowPass \<and>
   js ''Antrag einreichen'' \<notin> set objectPrototypeKeys \<and>
   fst (renderTokens (\<lambda>k. k)
     [Node (js ''Antrag einreichen'') Rect, Arrow (js ''-->''),
      Node (js ''Antrag einreichen'') Round] emptyFlowPass) =
     [js ''Antrag_einreichen[\"Antrag einreichen\"]'', js '' --> '',
      js ''Antrag_einreichen(\"Antrag einreichen\")''] \<and>
   fst (renderTokens (\<lambda>k. k)
     [Node (js ''Antrag einreichen'') Rect, Arrow (js ''-->''), Node (js ''Zweite'') Rect]
     emptyFlowPass) ! 0 = js ''Antrag_einreichen[\"Antrag einreichen\"]'' \<and>
   fst (renderTokens (\<lambda>k. k)
     [Node (js ''OK?'') Diamond, Arrow (js ''-->''), Node (js ''Antrag einreichen'') Round]
     (snd (the (foldOption (flowLine (\<lambda>k. k)) [js ''  \"Zweite\" --> {\"OK?\"}'']
        ([], snd (renderTokens (\<lambda>k. k)
           [Node (js ''Antrag einreichen'') Rect, Arrow (js ''-->''), Node (js ''Zweite'') Rect]
           emptyFlowPass)))))) ! 2 = js ''Antrag_einreichen(\"Antrag einreichen\")'' \<and>
   map_of (nodeIdMap (snd (renderTokens (\<lambda>k. k)
     [Node (js ''OK?'') Diamond, Arrow (js ''-->''), Node (js ''Antrag einreichen'') Round]
     (snd (the (foldOption (flowLine (\<lambda>k. k)) [js ''  \"Zweite\" --> {\"OK?\"}'']
        ([], snd (renderTokens (\<lambda>k. k)
           [Node (js ''Antrag einreichen'') Rect, Arrow (js ''-->''), Node (js ''Zweite'') Rect]
           emptyFlowPass)))))))) (js ''Antrag einreichen'') = Some (js ''Antrag_einreichen'')"
proof -
  let ?I = "\<lambda>k :: jsstring. k"
  let ?L = "js ''Antrag einreichen''"
  let ?K = "js ''constructor''"
  let ?A = "[Node ?L Rect, Arrow (js ''-->''), Node (js ''Zweite'') Rect]"
  let ?C = "[Node (js ''OK?'') Diamond, Arrow (js ''-->''), Node ?L Round]"
  let ?between = "[js ''  \"Zweite\" --> {\"OK?\"}'']"
  let ?rA = "renderTokens ?I ?A emptyFlowPass"
  let ?rB = "foldOption (flowLine ?I) ?between ([], snd ?rA)"
  let ?rC = "renderTokens ?I ?C (snd (the ?rB))"
  have e1: "fst (renderTokens ?I [Node ?L Rect, Arrow (js ''-->''), Node ?L Round] emptyFlowPass) =
     [js ''Antrag_einreichen[\"Antrag einreichen\"]'', js '' --> '',
      js ''Antrag_einreichen(\"Antrag einreichen\")'']"
    by code_simp
  have e2: "fst ?rA ! 0 = js ''Antrag_einreichen'' @ shapeText Rect ?L"
    by code_simp
  have e2': "fst ?rA ! 0 = js ''Antrag_einreichen[\"Antrag einreichen\"]''"
    by code_simp
  have e3: "fst ?rC ! 2 = js ''Antrag_einreichen(\"Antrag einreichen\")''"
    by code_simp
  have ne: "?rB \<noteq> None"
    by code_simp
  have k: "?K \<in> set objectPrototypeKeys" "map_of (nodeIdMap emptyFlowPass) ?K = None"
    by (simp_all add: objectPrototypeKeys_def emptyFlowPass_def)
  have n: "?L \<notin> set objectPrototypeKeys"
    by code_simp
  have a: "renderTokens ?I ([] @ Node ?L Rect # [Arrow (js ''-->''), Node (js ''Zweite'') Rect])
      emptyFlowPass = (fst ?rA, snd ?rA)"
    by simp
  have b: "?rB = Some (fst (the ?rB), snd (the ?rB))"
    using ne by simp
  have d: "renderTokens ?I ([Node (js ''OK?'') Diamond, Arrow (js ''-->'')] @ Node ?L Round # [])
      (snd (the ?rB)) = (fst ?rC, snd ?rC)"
    by simp
  note t = flow_label_reuse [of ?K emptyFlowPass emptyFlowPass ?L ?I "[]" Rect
      "[Arrow (js ''-->'')]" Round "[]"
      "[]" "[Arrow (js ''-->''), Node (js ''Zweite'') Rect]" "fst ?rA" "snd ?rA" ?between "[]"
      "fst (the ?rB)" "snd (the ?rB)" "[Node (js ''OK?'') Diamond, Arrow (js ''-->'')]" "[]"
      "fst ?rC" "snd ?rC"]
  from t k have f: "getFlowNodeId ?K emptyFlowPass = (Inherited ?K, emptyFlowPass)"
    by blast
  from t have c0: "cacheTruthy emptyFlowPass" by blast
  from t c0 n a b d obtain ident where
    i1: "fst ?rA ! length ([] :: token list) = ident @ shapeText Rect ?L" and
    i2: "map_of (nodeIdMap (snd ?rC)) ?L = Some ident"
    by blast
  from i1 e2 have "ident = js ''Antrag_einreichen''" by simp
  with i2 have m: "map_of (nodeIdMap (snd ?rC)) ?L = Some (js ''Antrag_einreichen'')" by simp
  from f c0 n e1 e2' e3 m show ?thesis by simp
qed

section \<open>Properties of the entity-relationship preprocessor\<close>

lemma preprocessERAttribute_short:
  "length (splitCSV (trim line)) < 2 \<Longrightarrow> preprocessERAttribute line st = Some (line, st)"
  by (simp add: preprocessERAttribute_def Let_def)

lemma preprocessERAttribute_long:
  assumes "2 \<le> length (splitCSV (trim line))"
  shows "\<exists>ident st'.
           getUniqueId (splitCSV (trim line) ! 0) (Some (length (splitCSV (trim line) ! 0) + 2)) st
             = Some (ident, st') \<and>
           preprocessERAttribute line st =
             Some (leadingSpace line @ ident @ js '' '' @ splitCSV (trim line) ! 1 @
                   keySuffix (attributeKey (splitCSV (trim line))) @
                   commentSuffix (attributeComment (splitCSV (trim line))), st')"
proof -
  obtain ident st' where
    g: "getUniqueId (splitCSV (trim line) ! 0) (Some (length (splitCSV (trim line) ! 0) + 2)) st
          = Some (ident, st')"
    using getUniqueId_Some by blast
  with assms show ?thesis by (simp add: preprocessERAttribute_def Let_def)
qed

lemma preprocessERAttributeOld_long:
  assumes "2 \<le> length (splitCSV (trim line))"
  shows "\<exists>ident st'.
           getUniqueId (splitCSV (trim line) ! 0) None st = Some (ident, st') \<and>
           preprocessERAttributeOld line st =
             Some (leadingSpace line @ splitCSV (trim line) ! 1 @ js '' '' @ ident @
                   keySuffix (attributeKey (splitCSV (trim line))) @
                   commentSuffix (attributeComment (splitCSV (trim line))), st')"
proof -
  obtain ident st' where
    g: "getUniqueId (splitCSV (trim line) ! 0) None st = Some (ident, st')"
    using getUniqueId_Some by blast
  with assms show ?thesis by (simp add: preprocessERAttributeOld_def Let_def)
qed

lemma preprocessERAttribute_returns: "\<exists>out st'. preprocessERAttribute line st = Some (out, st')"
  using preprocessERAttribute_short [of line st] preprocessERAttribute_long [of line st]
  by (cases "length (splitCSV (trim line)) < 2") auto

lemma preprocessERRelationship_returns:
  "\<exists>out st'. preprocessERRelationship line st = Some (out, st')"
proof (cases "relOpIndex (trim line)")
  case None
  then show ?thesis by (simp add: preprocessERRelationship_def Let_def)
next
  case (Some i)
  let ?l = "trim (stripEdges 34 (trim (substring (trim line) 0 i)))"
  let ?rp = "trim (drop (i + 6) (trim line))"
  let ?r = "trim (stripEdges 34 (case indexOf (js '':'') ?rp of
      Some j \<Rightarrow> trim (substring ?rp 0 j) | None \<Rightarrow> ?rp))"
  obtain leftId st1 where 1: "getUniqueId ?l None st = Some (leftId, st1)"
    using getUniqueId_Some by blast
  obtain rightId st2 where 2: "getUniqueId ?r None st1 = Some (rightId, st2)"
    using getUniqueId_Some by blast
  from Some 1 2 show ?thesis by (simp add: preprocessERRelationship_def Let_def)
qed





lemma ciEqual_nine_E:
  assumes "ciEqual (take 9 t) (69 # rest) \<or> ciEqual (take 9 t) (101 # rest)"
  shows "t \<noteq> [] \<and> \<not> prefix (js ''%%'') t"
proof (cases t)
  case Nil
  with assms show ?thesis by (simp add: ciEqual_def)
next
  case (Cons c cs)
  with assms have "upperAscii c = 69"
    by (auto simp: ciEqual_def upperAscii_def isLower_def)
  then have "c \<noteq> 37" by (auto simp: upperAscii_def isLower_def split: if_splits)
  with Cons show ?thesis by (simp add: js_def)
qed

lemma ciEqual_nine_D:
  assumes "ciEqual (take 9 t) (100 # rest)"
  shows "t \<noteq> [] \<and> \<not> prefix (js ''%%'') t"
proof (cases t)
  case Nil
  with assms show ?thesis by (simp add: ciEqual_def)
next
  case (Cons c cs)
  with assms have "upperAscii c = 68"
    by (auto simp: ciEqual_def upperAscii_def isLower_def)
  then have "c \<noteq> 37" by (auto simp: upperAscii_def isLower_def split: if_splits)
  with Cons show ?thesis by (simp add: js_def)
qed

lemma matchErDecl_line: "matchErDecl t = Some g \<Longrightarrow> t \<noteq> [] \<and> \<not> prefix (js ''%%'') t"
proof -
  assume "matchErDecl t = Some g"
  then have "ciEqual (take 9 t) (js ''erDiagram'')"
    by (auto simp: matchErDecl_def split: if_splits)
  then have "ciEqual (take 9 t) (101 # js ''rDiagram'')" by (simp add: js_def)
  then show ?thesis using ciEqual_nine_E by blast
qed

lemma matchDirection_line: "matchDirection t = Some d \<Longrightarrow> t \<noteq> [] \<and> \<not> prefix (js ''%%'') t"
proof -
  assume "matchDirection t = Some d"
  then have "ciEqual (take 9 t) (js ''direction'')"
    by (auto simp: matchDirection_def split: if_splits)
  then have "ciEqual (take 9 t) (100 # js ''irection'')" by (simp add: js_def)
  then show ?thesis using ciEqual_nine_D by blast
qed

lemma erLine_blank:
  "trim line = [] \<or> prefix (js ''%%'') (trim line) \<Longrightarrow>
   erLine line s = Some (s\<lparr>result := result s @ [line]\<rparr>)"
  by (simp add: erLine_def Let_def)

lemma erLine_decl:
  assumes "matchErDecl (trim line) = Some g"
  shows "erLine line s =
     Some (s\<lparr>erDirection := (case g of Some d \<Rightarrow> Some (toUpperCase d) | None \<Rightarrow> erDirection s),
             result := result s @ [js ''erDiagram'']\<rparr>)"
  using assms matchErDecl_line [OF assms] by (simp add: erLine_def Let_def)

lemma erLine_direction:
  assumes "matchErDecl (trim line) = None" "matchDirection (trim line) = Some d"
  shows "erLine line s = Some (s\<lparr>erDirection := Some (toUpperCase d)\<rparr>)"
  using assms matchDirection_line [OF assms(2)] by (simp add: erLine_def Let_def)

lemma erLine_other:
  assumes "matchErDecl (trim line) = None" "matchDirection (trim line) = None"
  shows "\<exists>s'. erLine line s = Some s' \<and> erDirection s' = erDirection s"
proof (cases "trim line = [] \<or> prefix (js ''%%'') (trim line)")
  case True
  then show ?thesis by (simp add: erLine_blank)
next
  case nb: False
  show ?thesis
  proof (cases "trim line = js ''}''")
    case True
    with nb assms show ?thesis by (simp add: erLine_def Let_def)
  next
    case nc: False
    show ?thesis
    proof (cases "inEntity s")
      case True
      obtain out st' where "preprocessERAttribute line (erPass s) = Some (out, st')"
        using preprocessERAttribute_returns by blast
      with nb nc True assms show ?thesis by (simp add: erLine_def Let_def)
    next
      case ne: False
      show ?thesis
      proof (cases "matchEntityOpen (trim line)")
        case (Some g)
        obtain ident st' where
          "getUniqueId (trim (stripEdges 34 g)) None (erPass s) = Some (ident, st')"
          using getUniqueId_Some by blast
        with nb nc ne Some assms show ?thesis by (simp add: erLine_def Let_def)
      next
        case no: None
        show ?thesis
        proof (cases "relOpIndex (trim line)")
          case None
          with nb nc ne no assms show ?thesis by (simp add: erLine_def Let_def)
        next
          case (Some i)
          obtain out st' where "preprocessERRelationship line (erPass s) = Some (out, st')"
            using preprocessERRelationship_returns by blast
          with nb nc ne no Some assms show ?thesis by (simp add: erLine_def Let_def)
        qed
      qed
    qed
  qed
qed

lemma erLine_lineDirection:
  "\<exists>s'. erLine line s = Some s' \<and>
        erDirection s' = (case lineDirection line of Some x \<Rightarrow> Some x | None \<Rightarrow> erDirection s)"
proof (cases "matchErDecl (trim line)")
  case (Some g)
  then show ?thesis by (cases g) (simp_all add: erLine_decl lineDirection_def)
next
  case None
  show ?thesis
  proof (cases "matchDirection (trim line)")
    case (Some d)
    with None show ?thesis by (simp add: erLine_direction lineDirection_def)
  next
    case nd: None
    with None erLine_other [OF None nd, of s] show ?thesis by (simp add: lineDirection_def)
  qed
qed

lemma erLoop_direction:
  "\<exists>s'. erLoop lines s = Some s' \<and> erDirection s' = directionAfter (erDirection s) lines"
proof (induction lines arbitrary: s)
  case Nil
  then show ?case by (simp add: erLoop_def directionAfter_def)
next
  case (Cons line lines)
  obtain s1 where 1: "erLine line s = Some s1" and
    d: "erDirection s1 = (case lineDirection line of Some x \<Rightarrow> Some x | None \<Rightarrow> erDirection s)"
    using erLine_lineDirection by blast
  from Cons [of s1] obtain s' where "erLoop lines s1 = Some s'"
    and "erDirection s' = directionAfter (erDirection s1) lines" by blast
  with 1 d show ?case by (simp add: erLoop_def directionAfter_def)
qed

lemma preprocessER_direction:
  "\<exists>r. preprocessER source = Some r \<and> direction r = directionAfter None (splitLines source)"
proof -
  obtain s' where "erLoop (splitLines source) erStart = Some s'"
    and "erDirection s' = directionAfter (erDirection erStart) (splitLines source)"
    using erLoop_direction by blast
  then show ?thesis by (simp add: preprocessER_def erStart_def)
qed

lemma flowLines_return: "\<exists>r. foldOption (flowLine inh) lines (out, st) = Some r"
proof (induction lines arbitrary: out st)
  case Nil
  then show ?case by simp
next
  case (Cons line lines)
  obtain l st1 where "preprocessFlowLine inh line st = Some (l, st1)"
    using preprocessFlowLine_returns by blast
  with Cons [of "out @ [line]" st] Cons [of "out @ [l]" st1] show ?case by simp
qed

lemma preprocessFlowchart_returns: "\<exists>r. preprocessFlowchart inh source = Some r"
  using flowLines_return [of inh "splitLines source" "[]" emptyFlowPass]
  by (auto simp: preprocessFlowchart_def)



text \<open>
  C9. An attribute line that splits into fewer than two fields is returned as it is, with
  the state unchanged. No function of the preprocessing core has a path that ends in an
  exception: the only operation that can throw, \<open>"_".repeat\<close>, is never reached with a
  negative count, so \<open>getUniqueId\<close>, \<open>preprocessERAttribute\<close>,
  \<open>preprocessERRelationship\<close>, one iteration of the loop of \<open>preprocessER\<close>,
  \<open>preprocessER\<close> itself, \<open>preprocessFlowLine\<close> and \<open>preprocessFlowchart\<close> return a
  value for every input. (\<open>sanitizeName\<close> and \<open>splitCSV\<close> have no failing operation at
  all.)
\<close>

theorem malformed_line_passthrough:
  "(length (splitCSV (trim line)) < 2 \<longrightarrow> preprocessERAttribute line st = Some (line, st)) \<and>
   (\<exists>ident st'. getUniqueId name minLength st = Some (ident, st')) \<and>
   (\<exists>out st'. preprocessERAttribute line st = Some (out, st')) \<and>
   (\<exists>out st'. preprocessERRelationship line st = Some (out, st')) \<and>
   (\<exists>s'. erLine line s = Some s') \<and>
   (\<exists>r. preprocessER source = Some r) \<and>
   (\<exists>out fs'. preprocessFlowLine inh line fs = Some (out, fs')) \<and>
   (\<exists>r. preprocessFlowchart inh source = Some r)"
  using preprocessERAttribute_short [of line st] getUniqueId_Some [of name minLength st]
    preprocessERAttribute_returns [of line st] preprocessERRelationship_returns [of line st]
    erLine_lineDirection [of line s] preprocessER_direction [of source]
    preprocessFlowLine_returns [of inh line fs] preprocessFlowchart_returns [of inh source]
  by blast

text \<open>The theorem at the line \<open>Fl\<close>, U+00E4, \<open>che in m\<close>, which has no comma.\<close>

theorem malformed_line_passthrough_witness:
  "length (splitCSV (trim (js ''    Fl'' @ [228] @ js ''che in m''))) < 2 \<and>
   preprocessERAttribute (js ''    Fl'' @ [228] @ js ''che in m'') emptyPass =
     Some (js ''    Fl'' @ [228] @ js ''che in m'', emptyPass)"
proof -
  have h: "length (splitCSV (trim (js ''    Fl'' @ [228] @ js ''che in m''))) < 2"
    by code_simp
  show ?thesis
    using malformed_line_passthrough [of "js ''    Fl'' @ [228] @ js ''che in m''" emptyPass] h
    by blast
qed

text \<open>
  C4, as the claim states it, fails: in the source \<open>erDiagram LR\<close>, line feed,
  \<open>direction TB\<close> the declaration line carries the token \<open>LR\<close>, and the direction
  returned is \<open>TB\<close>, the token of the later statement.
\<close>

theorem shorthand_override_counterexample:
  "\<not> (\<forall>source d. matchErDecl (trim (hd (splitLines source))) = Some (Some d) \<longrightarrow>
        map_option direction (preprocessER source) = Some (Some (toUpperCase d)))"
proof
  assume a: "\<forall>source d. matchErDecl (trim (hd (splitLines source))) = Some (Some d) \<longrightarrow>
        map_option direction (preprocessER source) = Some (Some (toUpperCase d))"
  have h: "matchErDecl (trim (hd (splitLines (js ''erDiagram LR'' @ [10] @ js ''direction TB''))))
      = Some (Some (js ''LR''))"
    by code_simp
  have e: "map_option direction (preprocessER (js ''erDiagram LR'' @ [10] @ js ''direction TB''))
      = Some (Some (js ''TB''))"
    by code_simp
  from a h have "map_option direction (preprocessER (js ''erDiagram LR'' @ [10] @ js ''direction TB''))
      = Some (Some (toUpperCase (js ''LR'')))"
    by blast
  with e have "Some (Some (js ''TB'')) = Some (Some (toUpperCase (js ''LR'')))"
    by (simp only:)
  then have "js ''TB'' = toUpperCase (js ''LR'')"
    by (simp only: option.inject)
  then show False by (simp add: js_def toUpperCase_def upperAscii_def isLower_def)
qed

text \<open>
  C4, amended. A declaration line, with or without a shorthand token, is emitted as the
  bare \<open>erDiagram\<close>, and its token, if it has one, becomes the direction. A standalone
  \<open>direction\<close> statement adds nothing to the output and becomes the direction, inside an
  entity block as well as outside. The direction that \<open>preprocessER\<close> returns is the one
  of the last line of the source that carries one: the shorthand token is returned when no
  standalone statement follows the declaration line, and a later standalone statement
  overrides it.
\<close>

theorem direction_last_wins:
  "(matchErDecl (trim line) = Some g \<longrightarrow>
      erLine line s =
        Some (s\<lparr>erDirection := (case g of Some d \<Rightarrow> Some (toUpperCase d) | None \<Rightarrow> erDirection s),
                result := result s @ [js ''erDiagram'']\<rparr>)) \<and>
   (matchErDecl (trim line) = None \<longrightarrow> matchDirection (trim line) = Some d \<longrightarrow>
      erLine line s = Some (s\<lparr>erDirection := Some (toUpperCase d)\<rparr>)) \<and>
   (\<exists>r. preprocessER source = Some r \<and> direction r = directionAfter None (splitLines source))"
  using erLine_decl [of line g s] erLine_direction [of line d s] preprocessER_direction [of source]
  by blast

text \<open>
  The theorem at a declaration line with the token \<open>lr\<close>, at a standalone statement
  inside an entity block, and at two sources: with the statement the direction returned
  is \<open>TB\<close> and the statement is missing from the output, without it the direction is
  \<open>LR\<close>.
\<close>

theorem direction_last_wins_witness:
  "matchErDecl (trim (js ''erDiagram lr'')) = Some (Some (js ''lr'')) \<and>
   erLine (js ''erDiagram lr'') erStart =
     Some (erStart\<lparr>erDirection := Some (js ''LR''), result := [js ''erDiagram'']\<rparr>) \<and>
   matchErDecl (trim (js ''  direction TB'')) = None \<and>
   matchDirection (trim (js ''  direction TB'')) = Some (js ''TB'') \<and>
   erLine (js ''  direction TB'') (erStart\<lparr>inEntity := True\<rparr>) =
     Some (erStart\<lparr>inEntity := True, erDirection := Some (js ''TB'')\<rparr>) \<and>
   map_option code (preprocessER
     (js ''erDiagram lr'' @ [10] @ js ''A {'' @ [10] @ js ''  direction TB'' @ [10] @ js ''}''))
     = Some (js ''erDiagram'' @ [10] @ js ''A {'' @ [10] @ js ''}'') \<and>
   map_option direction (preprocessER
     (js ''erDiagram lr'' @ [10] @ js ''A {'' @ [10] @ js ''  direction TB'' @ [10] @ js ''}''))
     = Some (Some (js ''TB'')) \<and>
   map_option direction (preprocessER (js ''erDiagram lr'' @ [10] @ js ''A {'' @ [10] @ js ''}''))
     = Some (Some (js ''LR''))"
proof -
  let ?S = "js ''erDiagram lr'' @ [10] @ js ''A {'' @ [10] @ js ''  direction TB'' @ [10] @ js ''}''"
  let ?S2 = "js ''erDiagram lr'' @ [10] @ js ''A {'' @ [10] @ js ''}''"
  have h1: "matchErDecl (trim (js ''erDiagram lr'')) = Some (Some (js ''lr''))"
    by code_simp
  have h2: "matchErDecl (trim (js ''  direction TB'')) = None"
    by code_simp
  have h3: "matchDirection (trim (js ''  direction TB'')) = Some (js ''TB'')"
    by code_simp
  have u1: "toUpperCase (js ''lr'') = js ''LR''" by code_simp
  have u2: "toUpperCase (js ''TB'') = js ''TB''" by code_simp
  have d1: "directionAfter None (splitLines ?S) = Some (js ''TB'')" by code_simp
  have d2: "directionAfter None (splitLines ?S2) = Some (js ''LR'')" by code_simp
  have c: "map_option code (preprocessER ?S) =
      Some (js ''erDiagram'' @ [10] @ js ''A {'' @ [10] @ js ''}'')"
    by code_simp
  have a: "erLine (js ''erDiagram lr'') erStart =
     Some (erStart\<lparr>erDirection := Some (js ''LR''), result := [js ''erDiagram'']\<rparr>)"
    using direction_last_wins [of "js ''erDiagram lr''" "Some (js ''lr'')" erStart] h1 u1
    by (simp add: erStart_def)
  have b: "erLine (js ''  direction TB'') (erStart\<lparr>inEntity := True\<rparr>) =
     Some (erStart\<lparr>inEntity := True, erDirection := Some (js ''TB'')\<rparr>)"
    using direction_last_wins [of "js ''  direction TB''" _ "erStart\<lparr>inEntity := True\<rparr>" "js ''TB''"]
      h2 h3 u2
    by simp
  have e1: "map_option direction (preprocessER ?S) = Some (Some (js ''TB''))"
    using direction_last_wins [of _ _ _ _ ?S] d1 by auto
  have e2: "map_option direction (preprocessER ?S2) = Some (Some (js ''LR''))"
    using direction_last_wins [of _ _ _ _ ?S2] d2 by auto
  from h1 h2 h3 a b c e1 e2 show ?thesis by blast
qed

text \<open>
  What \<open>preprocessERAttribute\<close> does with a third field that is no key tag: no key tag
  is emitted; with four or more fields the comment is made of the fields after the third,
  with exactly three fields it is the third field.
\<close>

lemma attribute_no_key:
  assumes "3 \<le> length parts" "\<not> isKeyTag (parts ! 2)"
  shows "attributeKey parts = None \<and> keySuffix (attributeKey parts) = [] \<and>
         attributeComment parts =
           Some (trim (if 4 \<le> length parts then joinWith (js '', '') (drop 3 parts)
                       else parts ! 2))"
proof -
  from assms have k: "attributeKey parts = None" by (simp add: attributeKey_def)
  from assms(1) have "4 \<le> length parts \<or> length parts = 3" by arith
  with k show ?thesis by (auto simp: keySuffix_def attributeComment_def)
qed

lemma trim_Nil: "trim [] = []"
  by (simp add: trim_def trimEnd_def trimStart_def)

lemma stripEdges_Nil: "stripEdges c [] = []"
  by (simp add: stripEdges_def)

lemma commentSuffix_Some:
  "commentSuffix (Some cm) =
     (if trim (stripEdges 34 cm) = [] then [] else js '' '' @ [34] @ trim (stripEdges 34 cm) @ [34])"
  by (cases "cm = []") (simp_all add: commentSuffix_def Let_def trim_Nil stripEdges_Nil)

text \<open>The line of the claim and of the README: no key tag, and the comment with its comma.\<close>

lemma attribute_example:
  "splitCSV (js ''Order Status, string, , \"New, Shipped\"'') =
     [js ''Order Status'', js ''string'', [], js ''\"New, Shipped\"''] \<and>
   attributeKey (splitCSV (js ''Order Status, string, , \"New, Shipped\"'')) = None \<and>
   preprocessERAttribute (js ''Order Status, string, , \"New, Shipped\"'') emptyPass =
     Some (js ''Order_Status__ string \"New, Shipped\"'',
           \<lparr>usedIds = [js ''Order_Status__''],
             nameMapping = [(js ''Order_Status__'', js ''Order Status'')]\<rparr>)"
  by code_simp

text \<open>
  C7. The claim holds on its example (\<open>attribute_example\<close>) and fails where a third
  field that is no key tag is followed by further fields: in
  \<open>Status, string, New, Shipped\<close> the field \<open>New\<close> is no key tag, and the comment
  emitted is \<open>Shipped\<close> alone, the field \<open>New\<close> is lost; only when the third field is
  the last one (\<open>Status, string, New\<close>) does it become the comment. The source states
  the intention next to the code: "If column 3 wasn't a key, treat it as the start of the
  comment."
\<close>

theorem attribute_third_field_dropped:
  "splitCSV (js ''Status, string, New, Shipped'') =
     [js ''Status'', js ''string'', js ''New'', js ''Shipped''] \<and>
   attributeKey (splitCSV (js ''Status, string, New, Shipped'')) = None \<and>
   attributeComment (splitCSV (js ''Status, string, New, Shipped'')) = Some (js ''Shipped'') \<and>
   preprocessERAttribute (js ''Status, string, New, Shipped'') emptyPass =
     Some (js ''Status__ string \"Shipped\"'',
           \<lparr>usedIds = [js ''Status__''], nameMapping = [(js ''Status__'', js ''Status'')]\<rparr>) \<and>
   attributeComment (splitCSV (js ''Status, string, New'')) = Some (js ''New'') \<and>
   preprocessERAttribute (js ''Status, string, New'') emptyPass =
     Some (js ''Status__ string \"New\"'',
           \<lparr>usedIds = [js ''Status__''], nameMapping = [(js ''Status__'', js ''Status'')]\<rparr>)"
  by code_simp

section \<open>Properties of the restorer\<close>

lemma getSubstitution_plain: "36 \<notin> set repl \<Longrightarrow> getSubstitution matched str position repl = repl"
  by (induction matched str position repl rule: getSubstitution.induct) auto

lemma replaceAll_whole:
  assumes "search \<noteq> []"
  shows "replaceAll search repl search = getSubstitution search search 0 repl"
proof -
  have "replaceAllAt search repl search (length search) = []"
    using assms by (subst replaceAllAt.simps) simp
  then show ?thesis
    using assms unfolding replaceAll_def by (subst replaceAllAt.simps) simp
qed

lemma restoreStep_absent: "\<not> sublist (fst e) text \<Longrightarrow> restoreStep text e = text"
  by (simp add: restoreStep_def)

lemma restoreStep_whole:
  "ident \<noteq> [] \<Longrightarrow> restoreStep ident (ident, d) = getSubstitution ident ident 0 d"
  by (simp add: restoreStep_def replaceAll_whole)

lemma sublist_singleton: "sublist [c] s \<longleftrightarrow> c \<in> set s"
  by (induction s) (auto simp: sublist_Cons_right)

lemma sortedEntries_sorted:
  "sorted_wrt (\<lambda>x y. length (fst y) \<le> length (fst x)) (sortedEntries m)"
proof -
  have "sorted (map (\<lambda>e. - int (length (fst e))) (sortedEntries m))"
    unfolding sortedEntries_def by (rule sorted_sort_key)
  then show ?thesis
    by (simp add: sorted_map sorted_wrt_iff_nth_less)
qed

lemma not_index_a: "\<not> isArrayIndex (js ''a'')" "\<not> isArrayIndex (js ''ab'')"
  by (simp_all add: isArrayIndex_def js_def isDigit_def)

lemma sortedEntries_a_ab:
  assumes "m = [(js ''a'', d1), (js ''ab'', d2)] \<or> m = [(js ''ab'', d2), (js ''a'', d1)]"
  shows "sortedEntries m = [(js ''ab'', d2), (js ''a'', d1)]"
  using assms not_index_a
  by (auto simp: sortedEntries_def objectEntries_def) (simp_all add: js_def)


lemma postProcess_a_ab:
  assumes "m = [(js ''a'', d1), (js ''ab'', d2)] \<or> m = [(js ''ab'', d2), (js ''a'', d1)]"
  shows "postProcessText m (js ''ab'') =
           restoreStep (getSubstitution (js ''ab'') (js ''ab'') 0 d2) (js ''a'', d1)"
proof -
  have ne: "js ''ab'' \<noteq> []" by (simp add: js_def)
  have "postProcessText m (js ''ab'') =
      restoreStep (restoreStep (js ''ab'') (js ''ab'', d2)) (js ''a'', d1)"
    by (simp add: postProcessText_def restoreText_def sortedEntries_a_ab [OF assms])
  then show ?thesis by (simp add: restoreStep_whole [OF ne])
qed

lemma sortedEntries_ab_before_a:
  assumes "i < length (sortedEntries m)" "j < length (sortedEntries m)"
    and "fst (sortedEntries m ! i) = js ''a''" "fst (sortedEntries m ! j) = js ''ab''"
  shows "j < i"
proof (rule ccontr)
  assume "\<not> j < i"
  moreover have "i \<noteq> j" using assms(3,4) by (auto simp: js_def)
  ultimately have "i < j" by simp
  with sortedEntries_sorted [of m] assms(2)
  have "length (fst (sortedEntries m ! j)) \<le> length (fst (sortedEntries m ! i))"
    by (simp add: sorted_wrt_iff_nth_less)
  with assms(3,4) show False by (simp add: js_def)
qed

text \<open>
  C6. The entries are applied in the order of \<open>sortedEntries\<close>, which is sorted by the
  length of the identifier, longest first; in every mapping the entry of the identifier
  \<open>ab\<close> stands before the entry of the identifier \<open>a\<close>. For the mapping that holds
  just these two, inserted in either order, restoring the text \<open>ab\<close> replaces it as a
  whole by the display name of \<open>ab\<close> (expanded as a replacement template), and only
  then is the entry of \<open>a\<close> applied, to that result. When the display name of \<open>ab\<close>
  holds neither \<open>$\<close> (36) nor \<open>a\<close> (97), the text restored is exactly that display
  name.
\<close>

theorem longest_identifier_first:
  "sorted_wrt (\<lambda>x y. length (fst y) \<le> length (fst x)) (sortedEntries m) \<and>
   (\<forall>i j. i < length (sortedEntries m) \<and> j < length (sortedEntries m) \<and>
      fst (sortedEntries m ! i) = js ''a'' \<and> fst (sortedEntries m ! j) = js ''ab'' \<longrightarrow> j < i) \<and>
   (m = [(js ''a'', d1), (js ''ab'', d2)] \<or> m = [(js ''ab'', d2), (js ''a'', d1)] \<longrightarrow>
      sortedEntries m = [(js ''ab'', d2), (js ''a'', d1)] \<and>
      postProcessText m (js ''ab'') =
        restoreStep (getSubstitution (js ''ab'') (js ''ab'') 0 d2) (js ''a'', d1) \<and>
      (36 \<notin> set d2 \<and> 97 \<notin> set d2 \<longrightarrow> postProcessText m (js ''ab'') = d2))"
proof (intro conjI impI)
  show "sorted_wrt (\<lambda>x y. length (fst y) \<le> length (fst x)) (sortedEntries m)"
    by (rule sortedEntries_sorted)
next
  show "\<forall>i j. i < length (sortedEntries m) \<and> j < length (sortedEntries m) \<and>
      fst (sortedEntries m ! i) = js ''a'' \<and> fst (sortedEntries m ! j) = js ''ab'' \<longrightarrow> j < i"
    using sortedEntries_ab_before_a by blast
next
  assume "m = [(js ''a'', d1), (js ''ab'', d2)] \<or> m = [(js ''ab'', d2), (js ''a'', d1)]"
  then show "sortedEntries m = [(js ''ab'', d2), (js ''a'', d1)]"
    by (rule sortedEntries_a_ab)
next
  assume "m = [(js ''a'', d1), (js ''ab'', d2)] \<or> m = [(js ''ab'', d2), (js ''a'', d1)]"
  then show "postProcessText m (js ''ab'') =
      restoreStep (getSubstitution (js ''ab'') (js ''ab'') 0 d2) (js ''a'', d1)"
    by (rule postProcess_a_ab)
next
  assume m: "m = [(js ''a'', d1), (js ''ab'', d2)] \<or> m = [(js ''ab'', d2), (js ''a'', d1)]"
    and d: "36 \<notin> set d2 \<and> 97 \<notin> set d2"
  have "\<not> sublist (js ''a'') d2" using d by (simp add: js_def sublist_singleton)
  then have "restoreStep d2 (js ''a'', d1) = d2" by (simp add: restoreStep_absent)
  with postProcess_a_ab [OF m] d show "postProcessText m (js ''ab'') = d2"
    by (simp add: getSubstitution_plain)
qed

text \<open>
  The theorem at the display names \<open>Erste\<close> for \<open>a\<close> and \<open>Zweite Zeile\<close> for \<open>ab\<close>;
  applying the entry of \<open>a\<close> first would give \<open>Ersteb\<close>.
\<close>

theorem longest_identifier_first_witness:
  "sortedEntries [(js ''a'', js ''Erste''), (js ''ab'', js ''Zweite Zeile'')] =
     [(js ''ab'', js ''Zweite Zeile''), (js ''a'', js ''Erste'')] \<and>
   postProcessText [(js ''a'', js ''Erste''), (js ''ab'', js ''Zweite Zeile'')] (js ''ab'') =
     js ''Zweite Zeile'' \<and>
   postProcessText [(js ''a'', js ''Erste''), (js ''ab'', js ''Zweite Zeile'')] (js ''ab a'') =
     js ''Zweite Zeile Erste''"
proof -
  have h: "36 \<notin> set (js ''Zweite Zeile'') \<and> 97 \<notin> set (js ''Zweite Zeile'')"
    by (simp add: js_def)
  have e: "postProcessText [(js ''a'', js ''Erste''), (js ''ab'', js ''Zweite Zeile'')] (js ''ab a'') =
     js ''Zweite Zeile Erste''"
    by code_simp
  show ?thesis
    using longest_identifier_first [of "[(js ''a'', js ''Erste''), (js ''ab'', js ''Zweite Zeile'')]"
      "js ''Erste''" "js ''Zweite Zeile''"] h e
    by blast
qed

text \<open>
  C1. The round trip fails for a display name that holds a replacement pattern of
  \<open>String.prototype.replaceAll\<close>. The entity \<open>Preis in $$\<close> receives the identifier
  \<open>Preis_in\<close>, and restoring the text \<open>Preis_in\<close> gives \<open>Preis in $\<close>: the restorer
  passes the display name as the replacement string, in which \<open>$$\<close> stands for one
  \<open>$\<close>. In the same way the flowchart label \<open>Kosten $&\<close> is restored as
  \<open>Kosten Kosten\<close>. In both sources no display name holds the identifier of another one.
\<close>

theorem roundtrip_dollar_failure:
  "map_option (\<lambda>r. nameMapping (finalPass r))
     (preprocessER (js ''erDiagram'' @ [10] @ js ''Preis in $$ {'' @ [10] @ js ''}'')) =
     Some [(js ''Preis_in'', js ''Preis in $$'')] \<and>
   postProcessText [(js ''Preis_in'', js ''Preis in $$'')] (js ''Preis_in'') = js ''Preis in $'' \<and>
   map_option (\<lambda>r. nameMapping (snd r))
     (preprocessFlowchart (\<lambda>k. k) (js ''flowchart TD'' @ [10] @ js ''\"Kosten $&\" --> \"B\"'')) =
     Some [(js ''Kosten'', js ''Kosten $&''), (js ''B'', js ''B'')] \<and>
   postProcessText [(js ''Kosten'', js ''Kosten $&''), (js ''B'', js ''B'')] (js ''Kosten'') =
     js ''Kosten Kosten'' \<and>
   \<not> sublist (js ''B'') (js ''Kosten $&'') \<and> \<not> sublist (js ''Kosten'') (js ''B'')"
  by code_simp

section \<open>The round trip without replacement patterns\<close>

text \<open>
  Apart from the replacement patterns the restorer does recover the display names: in a
  mapping with distinct, non-empty identifiers, an identifier whose display name holds no
  \<open>$\<close> and no other identifier of the mapping is restored to exactly that display name;
  and the mapping that a pass of either preprocessor leaves behind is such a mapping.
\<close>

lemma sublist_same_length: "sublist a b \<Longrightarrow> length b \<le> length a \<Longrightarrow> a = b"
  by (auto simp: sublist_def)

lemma restoreText_absent:
  "\<forall>e \<in> set es. \<not> sublist (fst e) text \<Longrightarrow> restoreText es text = text"
  unfolding restoreText_def by (induction es) (simp_all add: restoreStep_absent)

lemma restoreText_append:
  "restoreText (xs @ ys) text = restoreText ys (restoreText xs text)"
  by (simp add: restoreText_def)

lemma set_objectEntries: "set (objectEntries m) = set m"
  by (auto simp: objectEntries_def)

lemma set_sortedEntries: "set (sortedEntries m) = set m"
  by (simp add: sortedEntries_def set_objectEntries)

lemma distinct_objectEntries: "distinct m \<Longrightarrow> distinct (objectEntries m)"
  by (auto simp: objectEntries_def)

lemma distinct_keys_sortedEntries:
  assumes "distinct (map fst m)"
  shows "distinct (map fst (sortedEntries m))"
proof -
  from assms have d: "distinct m" and i: "inj_on fst (set m)"
    by (simp_all add: distinct_map)
  have "distinct (sortedEntries m)"
    unfolding sortedEntries_def using d by (simp add: distinct_objectEntries)
  with i show ?thesis by (simp add: distinct_map set_sortedEntries)
qed

lemma restore_roundtrip:
  assumes dist: "distinct (map fst m)"
    and mem: "(ident, d) \<in> set m"
    and ne: "ident \<noteq> []"
    and plain: "36 \<notin> set d"
    and other: "\<forall>e \<in> set m. fst e \<noteq> ident \<longrightarrow> \<not> sublist (fst e) d"
  shows "postProcessText m ident = d"
proof -
  from mem have "(ident, d) \<in> set (sortedEntries m)" by (simp add: set_sortedEntries)
  then obtain xs ys where es: "sortedEntries m = xs @ (ident, d) # ys"
    by (auto simp: in_set_conv_decomp)
  have dk: "distinct (map fst (xs @ (ident, d) # ys))"
    using distinct_keys_sortedEntries [OF dist] es by simp
  have srt: "sorted_wrt (\<lambda>x y. length (fst y) \<le> length (fst x)) (xs @ (ident, d) # ys)"
    using sortedEntries_sorted [of m] es by simp
  have x: "\<forall>e \<in> set xs. \<not> sublist (fst e) ident"
  proof
    fix e
    assume e: "e \<in> set xs"
    with srt have "length ident \<le> length (fst e)" by (auto simp: sorted_wrt_append)
    moreover from dk e have "fst e \<noteq> ident" by auto
    ultimately show "\<not> sublist (fst e) ident" using sublist_same_length by blast
  qed
  have y: "\<forall>e \<in> set ys. \<not> sublist (fst e) d"
  proof
    fix e
    assume e: "e \<in> set ys"
    with dk have "fst e \<noteq> ident" by auto
    moreover from e es have "e \<in> set m" using set_sortedEntries [of m] by auto
    ultimately show "\<not> sublist (fst e) d" using other by blast
  qed
  have "postProcessText m ident = restoreText ys (restoreStep (restoreText xs ident) (ident, d))"
    by (simp add: postProcessText_def es restoreText_append) (simp add: restoreText_def)
  also have "\<dots> = restoreText ys (restoreStep ident (ident, d))"
    by (simp add: restoreText_absent [OF x])
  also have "\<dots> = restoreText ys d"
    by (simp add: restoreStep_whole [OF ne] getSubstitution_plain [OF plain])
  also have "\<dots> = d" by (rule restoreText_absent [OF y])
  finally show ?thesis .
qed

lemma objSet_good: "goodMapping m \<Longrightarrow> k \<noteq> [] \<Longrightarrow> goodMapping (objSet k v m)"
  by (auto simp: goodMapping_def objSet_def distinct_update dom_update)

lemma getUniqueId_nonempty:
  assumes "getUniqueId name ml st = Some (ident, st')"
  shows "ident \<noteq> []"
proof -
  from assms obtain base where b: "padBase (sanitizeName name) ml = Some base"
    and i: "ident = probeId (usedIds st) (nameMapping st) name base base 2"
    by (rule getUniqueId_cases)
  from b padBase_Some [of "sanitizeName name" ml] have "prefix (sanitizeName name) base" by auto
  moreover have "prefix base ident" unfolding i by (rule probeId_prefix) simp
  ultimately have "prefix (sanitizeName name) ident" by (rule prefix_order.trans)
  with sanitizeName_hd [of name] show ?thesis by auto
qed

lemma getUniqueId_good:
  assumes "getUniqueId name ml st = Some (ident, st')" "goodMapping (nameMapping st)"
  shows "goodMapping (nameMapping st')"
proof -
  from assms(1) obtain base where
    s: "st' = st\<lparr>usedIds := List.insert ident (usedIds st),
                  nameMapping := objSet ident name (nameMapping st)\<rparr>"
    by (rule getUniqueId_cases)
  with objSet_good [OF assms(2) getUniqueId_nonempty [OF assms(1)]] show ?thesis by simp
qed

lemma preprocessERAttribute_good:
  assumes "preprocessERAttribute line st = Some (out, st')" "goodMapping (nameMapping st)"
  shows "goodMapping (nameMapping st')"
proof (cases "length (splitCSV (trim line)) < 2")
  case True
  with assms show ?thesis by (simp add: preprocessERAttribute_short)
next
  case False
  then have "2 \<le> length (splitCSV (trim line))" by simp
  from preprocessERAttribute_long [OF this, of st] assms(1) obtain ident where
    "getUniqueId (splitCSV (trim line) ! 0) (Some (length (splitCSV (trim line) ! 0) + 2)) st
       = Some (ident, st')"
    by auto
  from getUniqueId_good [OF this assms(2)] show ?thesis .
qed

lemma preprocessERRelationship_good:
  assumes "preprocessERRelationship line st = Some (out, st')" "goodMapping (nameMapping st)"
  shows "goodMapping (nameMapping st')"
proof (cases "relOpIndex (trim line)")
  case None
  with assms show ?thesis by (simp add: preprocessERRelationship_def Let_def)
next
  case (Some i)
  let ?l = "trim (stripEdges 34 (trim (substring (trim line) 0 i)))"
  let ?rp = "trim (drop (i + 6) (trim line))"
  let ?r = "trim (stripEdges 34 (case indexOf (js '':'') ?rp of
      Some j \<Rightarrow> trim (substring ?rp 0 j) | None \<Rightarrow> ?rp))"
  obtain leftId st1 where 1: "getUniqueId ?l None st = Some (leftId, st1)"
    using getUniqueId_Some by blast
  obtain rightId st2 where 2: "getUniqueId ?r None st1 = Some (rightId, st2)"
    using getUniqueId_Some by blast
  from Some 1 2 assms(1) have "st' = st2" by (simp add: preprocessERRelationship_def Let_def)
  with getUniqueId_good [OF 2 getUniqueId_good [OF 1 assms(2)]] show ?thesis by simp
qed

lemma erLine_good:
  assumes "erLine line s = Some s'" "goodMapping (nameMapping (erPass s))"
  shows "goodMapping (nameMapping (erPass s'))"
proof (cases "matchErDecl (trim line)")
  case (Some g)
  with assms show ?thesis by (auto simp: erLine_decl)
next
  case nd: None
  show ?thesis
  proof (cases "matchDirection (trim line)")
    case (Some d)
    with nd assms show ?thesis by (auto simp: erLine_direction)
  next
    case nm: None
    show ?thesis
    proof (cases "trim line = [] \<or> prefix (js ''%%'') (trim line)")
      case True
      with assms show ?thesis by (auto simp: erLine_blank)
    next
      case nb: False
      show ?thesis
      proof (cases "trim line = js ''}''")
        case True
        with nb nd nm assms show ?thesis by (auto simp: erLine_def Let_def)
      next
        case nc: False
        show ?thesis
        proof (cases "inEntity s")
          case True
          obtain out st' where a: "preprocessERAttribute line (erPass s) = Some (out, st')"
            using preprocessERAttribute_returns by blast
          with nb nc nd nm True assms(1) have "erPass s' = st'"
            by (auto simp: erLine_def Let_def)
          with preprocessERAttribute_good [OF a assms(2)] show ?thesis by simp
        next
          case ne: False
          show ?thesis
          proof (cases "matchEntityOpen (trim line)")
            case (Some g)
            obtain ident st' where
              a: "getUniqueId (trim (stripEdges 34 g)) None (erPass s) = Some (ident, st')"
              using getUniqueId_Some by blast
            with nb nc nd nm ne Some assms(1) have "erPass s' = st'"
              by (auto simp: erLine_def Let_def)
            with getUniqueId_good [OF a assms(2)] show ?thesis by simp
          next
            case no: None
            show ?thesis
            proof (cases "relOpIndex (trim line)")
              case None
              with nb nc nd nm ne no assms show ?thesis by (auto simp: erLine_def Let_def)
            next
              case (Some i)
              obtain out st' where
                a: "preprocessERRelationship line (erPass s) = Some (out, st')"
                using preprocessERRelationship_returns by blast
              with nb nc nd nm ne no Some assms(1) have "erPass s' = st'"
                by (auto simp: erLine_def Let_def)
              with preprocessERRelationship_good [OF a assms(2)] show ?thesis by simp
            qed
          qed
        qed
      qed
    qed
  qed
qed

lemma erLoop_good:
  "erLoop lines s = Some s' \<Longrightarrow> goodMapping (nameMapping (erPass s)) \<Longrightarrow>
   goodMapping (nameMapping (erPass s'))"
proof (induction lines arbitrary: s)
  case Nil
  then show ?case by (simp add: erLoop_def)
next
  case (Cons line lines)
  from Cons.prems(1) obtain s1 where 1: "erLine line s = Some s1"
    and 2: "erLoop lines s1 = Some s'"
    by (cases "erLine line s") (auto simp: erLoop_def)
  from Cons.IH [OF 2 erLine_good [OF 1 Cons.prems(2)]] show ?case .
qed

lemma preprocessER_good:
  assumes "preprocessER source = Some r"
  shows "goodMapping (nameMapping (finalPass r))"
proof -
  from assms obtain s' where l: "erLoop (splitLines source) erStart = Some s'"
    and r: "finalPass r = erPass s'"
    by (auto simp: preprocessER_def split: option.splits)
  have "goodMapping (nameMapping (erPass erStart))"
    by (simp add: erStart_def emptyPass_def goodMapping_def)
  from erLoop_good [OF l this] r show ?thesis by simp
qed

lemma er_roundtrip_plain:
  assumes "preprocessER source = Some r"
    and "(ident, d) \<in> set (nameMapping (finalPass r))"
    and "36 \<notin> set d"
    and "\<forall>e \<in> set (nameMapping (finalPass r)). fst e \<noteq> ident \<longrightarrow> \<not> sublist (fst e) d"
  shows "postProcessText (nameMapping (finalPass r)) ident = d"
proof -
  from preprocessER_good [OF assms(1)] have g: "goodMapping (nameMapping (finalPass r))" .
  then have "distinct (map fst (nameMapping (finalPass r)))" by (simp add: goodMapping_def)
  moreover from g assms(2) have "ident \<noteq> []" by (force simp: goodMapping_def)
  ultimately show ?thesis using assms(2,3,4) by (intro restore_roundtrip)
qed


lemma getFlowNodeId_good:
  assumes "goodMapping (nameMapping st)"
  shows "goodMapping (nameMapping (snd (getFlowNodeId label st)))"
proof -
  have "goodMapping (nameMapping (snd (allocateFlowNodeId label st)))"
    using objSet_good [OF assms probeFlowId_nonempty [of "usedIds st" label 2]]
    by (simp add: allocateFlowNodeId_def Let_def)
  with assms show ?thesis
    by (cases rule: getFlowNodeId_cases [of st label]) simp_all
qed

lemma renderToken_good:
  assumes "goodMapping (nameMapping st)"
  shows "goodMapping (nameMapping (snd (renderToken inh t st)))"
proof (cases t)
  case (Arrow raw)
  with assms show ?thesis by (simp add: renderToken_def)
next
  case (Raw raw)
  with assms show ?thesis by (simp add: renderToken_def)
next
  case (Node l sh)
  with getFlowNodeId_good [OF assms, of l] show ?thesis
    by (cases "getFlowNodeId l st") (simp add: renderToken_def)
qed

lemma renderTokens_good:
  "goodMapping (nameMapping st) \<Longrightarrow> goodMapping (nameMapping (snd (renderTokens inh toks st)))"
proof (induction toks arbitrary: st)
  case Nil
  then show ?case by (simp add: renderTokens_Nil)
next
  case (Cons t ts)
  from Cons.IH [OF renderToken_good [OF Cons.prems, of inh t]]
  show ?case by (simp add: renderTokens_Cons)
qed

lemma flowLine_good:
  assumes "flowLine inh line (out, st) = Some (out', st')" "goodMapping (nameMapping st)"
  shows "goodMapping (nameMapping st')"
proof (cases "isFlowPassThrough (trim line)")
  case True
  with assms show ?thesis by simp
next
  case False
  with assms(1) obtain l where p: "preprocessFlowLine inh line st = Some (l, st')"
    by auto
  then obtain toks parts where "renderTokens inh toks st = (parts, st')"
    by (auto simp: preprocessFlowLine_def Let_def split: option.splits prod.splits)
  then have "st' = snd (renderTokens inh toks st)" by simp
  with renderTokens_good [OF assms(2)] show ?thesis by simp
qed

lemma flowLines_good:
  "foldOption (flowLine inh) lines (out, st) = Some (out', st') \<Longrightarrow>
   goodMapping (nameMapping st) \<Longrightarrow> goodMapping (nameMapping st')"
proof (induction lines arbitrary: out st)
  case Nil
  then show ?case by simp
next
  case (Cons line lines)
  from Cons.prems(1) obtain out1 st1 where
    1: "flowLine inh line (out, st) = Some (out1, st1)" and
    2: "foldOption (flowLine inh) lines (out1, st1) = Some (out', st')"
    by (cases "flowLine inh line (out, st)") auto
  from Cons.IH [OF 2 flowLine_good [OF 1 Cons.prems(2)]] show ?case .
qed

lemma flow_roundtrip_plain:
  assumes "preprocessFlowchart inh source = Some (out, st)"
    and "(ident, d) \<in> set (nameMapping st)"
    and "36 \<notin> set d"
    and "\<forall>e \<in> set (nameMapping st). fst e \<noteq> ident \<longrightarrow> \<not> sublist (fst e) d"
  shows "postProcessText (nameMapping st) ident = d"
proof -
  from assms(1) obtain ls where
    "foldOption (flowLine inh) (splitLines source) ([], emptyFlowPass) = Some (ls, st)"
    by (auto simp: preprocessFlowchart_def)
  moreover have "goodMapping (nameMapping emptyFlowPass)"
    by (simp add: emptyFlowPass_def goodMapping_def)
  ultimately have g: "goodMapping (nameMapping st)" by (rule flowLines_good)
  then have "distinct (map fst (nameMapping st))" by (simp add: goodMapping_def)
  moreover from g assms(2) have "ident \<noteq> []" by (force simp: goodMapping_def)
  ultimately show ?thesis using assms(2,3,4) by (intro restore_roundtrip)
qed

end
